theory Spec2Isabelle
  imports Main
begin

section \<open>Strings of the host language\<close>

text \<open>
  Template text is a \<open>string\<close>; a character stands for one code unit of the source
  string, restricted to the Latin-1 range. The white space that \<^verbatim>\<open>String.prototype.trim\<close>
  removes is, in that range, TAB, LF, VT, FF, CR, SPACE and NBSP.
\<close>

definition is_space :: "char \<Rightarrow> bool" where
  "is_space c \<longleftrightarrow> c \<in> set [CHR 0x09, CHR 0x0A, CHR 0x0B, CHR 0x0C, CHR 0x0D, CHR 0x20, CHR 0xA0]"

definition trim :: "string \<Rightarrow> string" where
  "trim s = rev (dropWhile is_space (rev (dropWhile is_space s)))"

definition starts_with :: "string \<Rightarrow> string \<Rightarrow> bool" where
  \<comment> \<open>\<^verbatim>\<open>s.startsWith(p)\<close>\<close>
  "starts_with p s \<longleftrightarrow> take (length p) s = p"

definition ends_with :: "string \<Rightarrow> string \<Rightarrow> bool" where
  \<comment> \<open>\<^verbatim>\<open>s.endsWith(p)\<close>\<close>
  "ends_with p s \<longleftrightarrow> length p \<le> length s \<and> drop (length s - length p) s = p"

fun index_of :: "string \<Rightarrow> string \<Rightarrow> nat option" where
  \<comment> \<open>\<^verbatim>\<open>s.indexOf(m)\<close>, with \<open>None\<close> for -1\<close>
  "index_of m [] = (if m = [] then Some 0 else None)"
| "index_of m (c # cs) =
     (if starts_with m (c # cs) then Some 0 else map_option Suc (index_of m cs))"

definition str_includes :: "string \<Rightarrow> string \<Rightarrow> bool" where
  \<comment> \<open>\<^verbatim>\<open>s.includes(m)\<close>, also a regular expression test for a literal pattern\<close>
  "str_includes m s \<longleftrightarrow> index_of m s \<noteq> None"

section \<open>Tokenizer (src/tokenizer.js)\<close>

datatype token =
    TEXT string
  | VAR string
  | RAW string
  | IF_START string
  | IF_END
  | EACH_START string
  | EACH_END

datatype tokenize_error =
    Unclosed_expression nat
  | If_requires_condition
  | Each_requires_items
  | Unknown_closing_directive string

definition processExpression ::
  "string \<Rightarrow> bool \<Rightarrow> token list \<Rightarrow> tokenize_error + token list" where
  "processExpression expression isRaw tokens =
     (if isRaw then Inr (tokens @ [RAW expression])
      else if starts_with ''#if '' expression then
        (let condition = trim (drop 4 expression)
         in if condition = [] then Inl If_requires_condition
            else Inr (tokens @ [IF_START condition]))
      else if starts_with ''#each '' expression then
        (let items = trim (drop 6 expression)
         in if items = [] then Inl Each_requires_items
            else Inr (tokens @ [EACH_START items]))
      else if expression = ''/if'' then Inr (tokens @ [IF_END])
      else if expression = ''/each'' then Inr (tokens @ [EACH_END])
      else if starts_with ''/'' expression then Inl (Unknown_closing_directive expression)
      else Inr (tokens @ [VAR expression]))"

definition flush_text :: "token list \<Rightarrow> string \<Rightarrow> token list" where
  \<comment> \<open>\<^verbatim>\<open>if (textBuffer.length > 0) tokens.push({type: TEXT, value: textBuffer})\<close>\<close>
  "flush_text tokens textBuffer = (if textBuffer \<noteq> [] then tokens @ [TEXT textBuffer] else tokens)"

text \<open>
  The scanning loop. \<open>rest\<close> is the template from \<open>position\<close> on, so that
  \<^verbatim>\<open>template[position + k]\<close> is \<open>rest ! k\<close> and \<^verbatim>\<open>template.indexOf(m, position + k)\<close>
  is \<open>index_of m (drop k rest)\<close>. \<open>position\<close> itself is kept for the error message.
\<close>

function tokenize_loop ::
  "nat \<Rightarrow> string \<Rightarrow> token list \<Rightarrow> string \<Rightarrow> tokenize_error + token list" where
  "tokenize_loop position rest tokens textBuffer =
     (if rest = [] then Inr (flush_text tokens textBuffer)
      else if rest ! 0 = CHR ''{'' \<and> 1 < length rest \<and> rest ! 1 = CHR ''{'' then
        (let tokens1 = flush_text tokens textBuffer;
             isRaw = (2 < length rest \<and> rest ! 2 = CHR ''{'');
             exprStart = (if isRaw then 3 else 2);
             closeMarker = (if isRaw then ''}}}'' else ''}}'')
         in case index_of closeMarker (drop exprStart rest) of
              None \<Rightarrow> Inl (Unclosed_expression position)
            | Some n \<Rightarrow>
                (case processExpression (trim (take n (drop exprStart rest))) isRaw tokens1 of
                   Inl e \<Rightarrow> Inl e
                 | Inr tokens2 \<Rightarrow>
                     tokenize_loop (position + exprStart + n + length closeMarker)
                       (drop (exprStart + n + length closeMarker) rest) tokens2 []))
      else tokenize_loop (position + 1) (drop 1 rest) tokens (textBuffer @ [rest ! 0]))"
  by pat_completeness auto
termination
  by (relation "measure (\<lambda>(p, r, t, b). length r)") auto

declare tokenize_loop.simps [simp del]

definition tokenize :: "string \<Rightarrow> tokenize_error + token list" where
  "tokenize template = (if template = [] then Inr [] else tokenize_loop 0 template [] [])"

section \<open>Parser (src/parser.js)\<close>

datatype node =
    TextN string
  | VariableN string
  | RawVariableN string
  | IfN string "node list"
  | EachN string "node list"

datatype ast = Root "node list"

datatype parse_error =
    Unexpected_tokens_at_end
  | Unclosed_directive string
  | Expected_token string nat
  | Undefined_token nat

fun token_type :: "token \<Rightarrow> string" where
  "token_type (TEXT v) = ''TEXT''"
| "token_type (VAR e) = ''VAR''"
| "token_type (RAW e) = ''RAW''"
| "token_type (IF_START c) = ''IF_START''"
| "token_type IF_END = ''IF_END''"
| "token_type (EACH_START i) = ''EACH_START''"
| "token_type EACH_END = ''EACH_END''"

text \<open>
  \<^verbatim>\<open>_parseBlock\<close> is called with one of two triples of start type, end type and node
  type; \<open>block_kind\<close> names the triple.
\<close>

datatype block_kind = IF_BLOCK | EACH_BLOCK

fun startType :: "block_kind \<Rightarrow> string" where
  "startType IF_BLOCK = ''IF_START''"
| "startType EACH_BLOCK = ''EACH_START''"

fun endType :: "block_kind \<Rightarrow> string" where
  "endType IF_BLOCK = ''IF_END''"
| "endType EACH_BLOCK = ''EACH_END''"

fun directiveName :: "block_kind \<Rightarrow> string" where
  \<comment> \<open>\<^verbatim>\<open>startType.toLowerCase().replace('_start', '')\<close>\<close>
  "directiveName IF_BLOCK = ''if''"
| "directiveName EACH_BLOCK = ''each''"

fun block_argument :: "token \<Rightarrow> string" where
  \<comment> \<open>\<^verbatim>\<open>startToken.condition\<close> of an if block, \<^verbatim>\<open>startToken.items\<close> of an each block\<close>
  "block_argument (IF_START c) = c"
| "block_argument (EACH_START i) = i"
| "block_argument _ = []"

fun block_node :: "block_kind \<Rightarrow> token \<Rightarrow> node list \<Rightarrow> node" where
  "block_node IF_BLOCK startToken children = IfN (block_argument startToken) children"
| "block_node EACH_BLOCK startToken children = EachN (block_argument startToken) children"

text \<open>
  The while loop of \<^verbatim>\<open>_parseTokens\<close> is the recursion of \<open>parseTokens\<close> on
  \<open>position\<close>, with \<open>nodes\<close> the list built so far. The \<^verbatim>\<open>default\<close> branch of
  the switch (an unknown token type) has no counterpart: every \<open>token\<close> has one of the
  seven types. Reading \<^verbatim>\<open>tokens[startPosition]\<close> beyond the end gives
  \<^verbatim>\<open>undefined\<close>, whose \<^verbatim>\<open>.type\<close> raises: \<open>Undefined_token\<close>.
\<close>

function parseTokens :: "token list \<Rightarrow> nat \<Rightarrow> node list \<Rightarrow> parse_error + (node list \<times> nat)"
  and parseBlock :: "token list \<Rightarrow> nat \<Rightarrow> block_kind \<Rightarrow> parse_error + (node \<times> nat)" where
  "parseTokens tokens position nodes =
     (if position < length tokens then
        (case tokens ! position of
           TEXT v \<Rightarrow> parseTokens tokens (position + 1) (nodes @ [TextN v])
         | VAR e \<Rightarrow> parseTokens tokens (position + 1) (nodes @ [VariableN e])
         | RAW e \<Rightarrow> parseTokens tokens (position + 1) (nodes @ [RawVariableN e])
         | IF_START c \<Rightarrow>
             (case parseBlock tokens position IF_BLOCK of
                Inl err \<Rightarrow> Inl err
              | Inr (n, nextPosition) \<Rightarrow> parseTokens tokens nextPosition (nodes @ [n]))
         | EACH_START i \<Rightarrow>
             (case parseBlock tokens position EACH_BLOCK of
                Inl err \<Rightarrow> Inl err
              | Inr (n, nextPosition) \<Rightarrow> parseTokens tokens nextPosition (nodes @ [n]))
         | IF_END \<Rightarrow> Inr (nodes, position)
         | EACH_END \<Rightarrow> Inr (nodes, position))
      else Inr (nodes, position))"
| "parseBlock tokens startPosition kind =
     (if \<not> startPosition < length tokens then Inl (Undefined_token startPosition)
      else if token_type (tokens ! startPosition) \<noteq> startType kind
        then Inl (Expected_token (startType kind) startPosition)
      else
        (case parseTokens tokens (startPosition + 1) [] of
           Inl err \<Rightarrow> Inl err
         | Inr (children, position) \<Rightarrow>
             if position \<ge> length tokens \<or> token_type (tokens ! position) \<noteq> endType kind
             then Inl (Unclosed_directive (directiveName kind))
             else Inr (block_node kind (tokens ! startPosition) children, position + 1)))"
  by pat_completeness auto

lemma parse_position_grows:
  "parseTokens_parseBlock_dom (Inl (tokens, position, nodes)) \<Longrightarrow>
     parseTokens tokens position nodes = Inr (ns, p) \<Longrightarrow> position \<le> p"
  "parseTokens_parseBlock_dom (Inr (tokens, startPosition, kind)) \<Longrightarrow>
     parseBlock tokens startPosition kind = Inr (n, q) \<Longrightarrow> startPosition < q"
proof (induct arbitrary: ns p and n q rule: parseTokens_parseBlock.pinduct)
  case (1 tokens position nodes)
  show ?case
  proof (cases "position < length tokens")
    case False
    with "1.hyps"(1) "1.prems" show ?thesis by (simp add: parseTokens.psimps)
  next
    case True
    show ?thesis
    proof (cases "tokens ! position")
      case (TEXT v)
      with True "1.hyps"(1) "1.prems" have "parseTokens tokens (position + 1) (nodes @ [TextN v]) = Inr (ns, p)"
        by (simp add: parseTokens.psimps)
      from "1.hyps"(2)[OF True TEXT this] show ?thesis by simp
    next
      case (VAR e)
      with True "1.hyps"(1) "1.prems" have "parseTokens tokens (position + 1) (nodes @ [VariableN e]) = Inr (ns, p)"
        by (simp add: parseTokens.psimps)
      from "1.hyps"(3)[OF True VAR this] show ?thesis by simp
    next
      case (RAW e)
      with True "1.hyps"(1) "1.prems" have "parseTokens tokens (position + 1) (nodes @ [RawVariableN e]) = Inr (ns, p)"
        by (simp add: parseTokens.psimps)
      from "1.hyps"(4)[OF True RAW this] show ?thesis by simp
    next
      case (IF_START c)
      with True "1.hyps"(1) "1.prems" obtain n q where
        b: "parseBlock tokens position IF_BLOCK = Inr (n, q)" and
        r: "parseTokens tokens q (nodes @ [n]) = Inr (ns, p)"
        by (auto simp: parseTokens.psimps split: sum.splits)
      from "1.hyps"(5)[OF True IF_START b] have "position < q" .
      moreover from "1.hyps"(6)[OF True IF_START b refl r] have "q \<le> p" .
      ultimately show ?thesis by simp
    next
      case IF_END
      with True "1.hyps"(1) "1.prems" show ?thesis by (simp add: parseTokens.psimps)
    next
      case (EACH_START i)
      with True "1.hyps"(1) "1.prems" obtain n q where
        b: "parseBlock tokens position EACH_BLOCK = Inr (n, q)" and
        r: "parseTokens tokens q (nodes @ [n]) = Inr (ns, p)"
        by (auto simp: parseTokens.psimps split: sum.splits)
      from "1.hyps"(7)[OF True EACH_START b] have "position < q" .
      moreover from "1.hyps"(8)[OF True EACH_START b refl r] have "q \<le> p" .
      ultimately show ?thesis by simp
    next
      case EACH_END
      with True "1.hyps"(1) "1.prems" show ?thesis by (simp add: parseTokens.psimps)
    qed
  qed
next
  case (2 tokens startPosition kind)
  from "2.hyps"(1) "2.prems" obtain children position where
    c: "parseTokens tokens (startPosition + 1) [] = Inr (children, position)" and
    q: "q = position + 1" and
    ok: "startPosition < length tokens" "\<not> token_type (tokens ! startPosition) \<noteq> startType kind"
    by (auto simp: parseBlock.psimps split: if_splits sum.splits)
  from "2.hyps"(2)[OF _ ok(2) c] ok(1) have "startPosition + 1 \<le> position" by simp
  with q show ?case by simp
qed

termination parseTokens
proof (relation "measure (\<lambda>x. case x of
          Inl (tokens, position, nodes) \<Rightarrow> 2 * (length tokens - position) + 1
        | Inr (tokens, startPosition, kind) \<Rightarrow> 2 * (length tokens - startPosition))", goal_cases)
  case 1
  show ?case by simp
next
  case (2 tokens position nodes v) then show ?case by auto
next
  case (3 tokens position nodes e) then show ?case by auto
next
  case (4 tokens position nodes e) then show ?case by auto
next
  case (5 tokens position nodes c) then show ?case by auto
next
  case (6 tokens position nodes c x n nextPosition)
  then show ?case using parse_position_grows(2) by (auto; fastforce)
next
  case (7 tokens position nodes i) then show ?case by auto
next
  case (8 tokens position nodes i x n nextPosition)
  then show ?case using parse_position_grows(2) by (auto; fastforce)
next
  case (9 tokens startPosition kind)
  then show ?case by auto
qed

declare parseTokens.simps [simp del] parseBlock.simps [simp del]

definition parse :: "token list \<Rightarrow> parse_error + ast" where
  "parse tokens =
     (case parseTokens tokens 0 [] of
        Inl err \<Rightarrow> Inl err
      | Inr (nodes, position) \<Rightarrow>
          if position < length tokens then Inl Unexpected_tokens_at_end else Inr (Root nodes))"

subsection \<open>Block matching as a stack discipline\<close>

text \<open>
  The matching of block-open and block-close tokens that the specification describes,
  written as a scan with a stack of the directives that are open (innermost first).
  It is a reference for the parser, not part of the source.
\<close>

datatype matching = Matched | Unclosed block_kind | Stray_close

fun match_blocks :: "block_kind list \<Rightarrow> token list \<Rightarrow> matching" where
  "match_blocks [] [] = Matched"
| "match_blocks (k # stack) [] = Unclosed k"
| "match_blocks stack (IF_START c # ts) = match_blocks (IF_BLOCK # stack) ts"
| "match_blocks stack (EACH_START i # ts) = match_blocks (EACH_BLOCK # stack) ts"
| "match_blocks [] (IF_END # ts) = Stray_close"
| "match_blocks [] (EACH_END # ts) = Stray_close"
| "match_blocks (k # stack) (IF_END # ts) =
     (if k = IF_BLOCK then match_blocks stack ts else Unclosed k)"
| "match_blocks (k # stack) (EACH_END # ts) =
     (if k = EACH_BLOCK then match_blocks stack ts else Unclosed k)"
| "match_blocks stack (t # ts) = match_blocks stack ts"

section \<open>Values and operators of the host language\<close>

text \<open>
  The compiled artifact is code of the host language, run on a context object. The
  model of the host covers plain data: \<^verbatim>\<open>undefined\<close>, \<^verbatim>\<open>null\<close>, booleans, numbers
  that are integers (\<open>JNum n\<close> stands for a number of the host only when the host's
  numbers hold \<open>n\<close> exactly; there is no NaN and no fraction among the values), strings, arrays and objects with own data properties only, whose prototype is
  the standard one. Where the value of a host operation depends on something outside
  this (an inherited property, the identity of an object, a number that is printed with
  an exponent, a global variable), the model answers \<open>Unmodelled\<close> rather than guess;
  \<open>Throw\<close> is an exception raised by the host, \<open>OutOfFuel\<close> a run cut off by the
  bound on loop iterations.
\<close>

datatype jsvalue =
    JUndefined
  | JNull
  | JBool bool
  | JNum int
  | JStr string
  | JArr "jsvalue list"
  | JObj "(string \<times> jsvalue) list"

datatype js_error = TypeError

datatype 'a result = Ok 'a | Throw js_error | Unmodelled | OutOfFuel

fun bind :: "'a result \<Rightarrow> ('a \<Rightarrow> 'b result) \<Rightarrow> 'b result" where
  "bind (Ok x) f = f x"
| "bind (Throw e) f = Throw e"
| "bind Unmodelled f = Unmodelled"
| "bind OutOfFuel f = OutOfFuel"

fun is_array :: "jsvalue \<Rightarrow> bool" where
  \<comment> \<open>\<^verbatim>\<open>Array.isArray(v)\<close>\<close>
  "is_array (JArr vs) = True"
| "is_array _ = False"

fun is_object :: "jsvalue \<Rightarrow> bool" where
  \<comment> \<open>\<^verbatim>\<open>v != null && typeof v === 'object'\<close>\<close>
  "is_object (JArr vs) = True"
| "is_object (JObj kvs) = True"
| "is_object _ = False"

fun truthy :: "jsvalue \<Rightarrow> bool" where
  \<comment> \<open>\<^verbatim>\<open>!!v\<close>\<close>
  "truthy JUndefined = False"
| "truthy JNull = False"
| "truthy (JBool b) = b"
| "truthy (JNum n) = (n \<noteq> 0)"
| "truthy (JStr s) = (s \<noteq> [])"
| "truthy (JArr vs) = True"
| "truthy (JObj kvs) = True"

definition is_digit :: "char \<Rightarrow> bool" where
  "is_digit c \<longleftrightarrow> c \<in> set ''0123456789''"

definition is_id_start :: "char \<Rightarrow> bool" where
  \<comment> \<open>the character class \<^verbatim>\<open>[a-zA-Z_$]\<close>\<close>
  "is_id_start c \<longleftrightarrow>
     c \<in> set ''abcdefghijklmnopqrstuvwxyzABCDEFGHIJKLMNOPQRSTUVWXYZ_$''"

definition is_id_part :: "char \<Rightarrow> bool" where
  \<comment> \<open>the character class \<^verbatim>\<open>[a-zA-Z0-9_$]\<close>\<close>
  "is_id_part c \<longleftrightarrow> is_id_start c \<or> is_digit c"

definition is_word :: "char \<Rightarrow> bool" where
  \<comment> \<open>the character class \<^verbatim>\<open>\w\<close>\<close>
  "is_word c \<longleftrightarrow> (is_id_start c \<or> is_digit c) \<and> c \<noteq> CHR ''$''"

definition is_identifier :: "string \<Rightarrow> bool" where
  \<comment> \<open>\<^verbatim>\<open>[a-zA-Z_$][a-zA-Z0-9_$]*\<close>\<close>
  "is_identifier s \<longleftrightarrow> s \<noteq> [] \<and> is_id_start (hd s) \<and> list_all is_id_part (tl s)"

fun split :: "char \<Rightarrow> string \<Rightarrow> string list" where
  \<comment> \<open>\<^verbatim>\<open>s.split(c)\<close>\<close>
  "split c [] = [[]]"
| "split c (x # xs) =
     (if x = c then [] # split c xs
      else (case split c xs of y # ys \<Rightarrow> (x # y) # ys | [] \<Rightarrow> [[x]]))"

definition isValidPath :: "string \<Rightarrow> bool" where
  \<comment> \<open>\<^verbatim>\<open>/^[a-zA-Z_$][a-zA-Z0-9_$]*(\.[a-zA-Z_$][a-zA-Z0-9_$]*)*$/.test(path)\<close>:
      identifiers joined by dots\<close>
  "isValidPath path \<longleftrightarrow> list_all is_identifier (split CHR ''.'' path)"

subsection \<open>Numbers and strings\<close>

definition digit_char :: "nat \<Rightarrow> char" where
  "digit_char d = ''0123456789'' ! d"

fun string_of_nat :: "nat \<Rightarrow> string" where
  "string_of_nat n =
     (if n < 10 then [digit_char n] else string_of_nat (n div 10) @ [digit_char (n mod 10)])"

declare string_of_nat.simps [simp del]

definition string_of_int :: "int \<Rightarrow> string" where
  "string_of_int i = (if i < 0 then ''-'' @ string_of_nat (nat (- i)) else string_of_nat (nat i))"

definition digit_value :: "char \<Rightarrow> nat" where
  "digit_value c = the (map_of (zip ''0123456789'' [0 ..< 10]) c)"

definition nat_of_digits :: "string \<Rightarrow> nat" where
  "nat_of_digits s = foldl (\<lambda>n c. 10 * n + digit_value c) 0 s"

definition is_decimal_literal :: "string \<Rightarrow> bool" where
  \<comment> \<open>a decimal integer literal of the host: \<^verbatim>\<open>0\<close>, or digits that do not start with 0\<close>
  "is_decimal_literal s \<longleftrightarrow>
     s \<noteq> [] \<and> list_all is_digit s \<and> (hd s = CHR ''0'' \<longrightarrow> length s = 1)"

text \<open>
  \<^verbatim>\<open>String(v)\<close>. An integer up to \<open>2 ^ 53\<close> in absolute value is printed with all
  its digits; beyond that the host's numbers have gaps and are printed rounded or with an
  exponent. An object with an own \<^verbatim>\<open>toString\<close> or \<^verbatim>\<open>valueOf\<close> property is not
  converted by the standard method. Both are outside the model. An array is the join of its elements
  with commas, \<^verbatim>\<open>undefined\<close> and \<^verbatim>\<open>null\<close> elements printed as nothing.
\<close>

fun to_string :: "jsvalue \<Rightarrow> string result"
  and join_elements :: "jsvalue list \<Rightarrow> string result" where
  "to_string JUndefined = Ok ''undefined''"
| "to_string JNull = Ok ''null''"
| "to_string (JBool b) = Ok (if b then ''true'' else ''false'')"
| "to_string (JNum n) =
     (if \<bar>n\<bar> \<le> 9007199254740992 then Ok (string_of_int n) else Unmodelled)"
| "to_string (JStr s) = Ok s"
| "to_string (JArr vs) = join_elements vs"
| "to_string (JObj kvs) =
     (if map_of kvs ''toString'' = None \<and> map_of kvs ''valueOf'' = None
      then Ok ''[object Object]'' else Unmodelled)"
| "join_elements [] = Ok []"
| "join_elements (v # vs) =
     bind (if v = JUndefined \<or> v = JNull then Ok [] else to_string v) (\<lambda>s.
       if vs = [] then Ok s else bind (join_elements vs) (\<lambda>r. Ok (s @ '','' @ r)))"

subsection \<open>Property access\<close>

definition object_prototype_names :: "string list" where
  "object_prototype_names =
     [''constructor'', ''__proto__'', ''hasOwnProperty'', ''isPrototypeOf'',
      ''propertyIsEnumerable'', ''toLocaleString'', ''toString'', ''valueOf'',
      ''__defineGetter__'', ''__defineSetter__'', ''__lookupGetter__'', ''__lookupSetter__'']"

definition array_prototype_names :: "string list" where
  \<comment> \<open>the properties that an array inherits from \<^verbatim>\<open>Array.prototype\<close>\<close>
  "array_prototype_names =
     [''at'', ''concat'', ''copyWithin'', ''entries'', ''every'', ''fill'', ''filter'', ''find'',
      ''findIndex'', ''findLast'', ''findLastIndex'', ''flat'', ''flatMap'', ''forEach'',
      ''includes'', ''indexOf'', ''join'', ''keys'', ''lastIndexOf'', ''map'', ''pop'', ''push'',
      ''reduce'', ''reduceRight'', ''reverse'', ''shift'', ''slice'', ''some'', ''sort'',
      ''splice'', ''toReversed'', ''toSorted'', ''toSpliced'', ''unshift'', ''values'', ''with'',
      ''group'', ''groupBy'', ''groupToMap'', ''lastItem'', ''lastIndex'']"

definition array_index :: "string \<Rightarrow> nat option" where
  \<comment> \<open>a property key that is an array index\<close>
  "array_index key = (if is_decimal_literal key then Some (nat_of_digits key) else None)"

text \<open>
  \<^verbatim>\<open>v[key]\<close> and \<^verbatim>\<open>v.key\<close>. Reading a property of \<^verbatim>\<open>undefined\<close> or \<^verbatim>\<open>null\<close>
  raises a TypeError. An object answers with its own property, and with
  \<^verbatim>\<open>undefined\<close> for a key that neither it nor the standard prototype has. An array
  answers for \<^verbatim>\<open>length\<close> and for indices, and with \<^verbatim>\<open>undefined\<close> for any other key
  that its prototypes do not have. A string answers for \<^verbatim>\<open>length\<close> and for indices.
\<close>

fun get_prop :: "jsvalue \<Rightarrow> string \<Rightarrow> jsvalue result" where
  "get_prop JUndefined key = Throw TypeError"
| "get_prop JNull key = Throw TypeError"
| "get_prop (JObj kvs) key =
     (case map_of kvs key of
        Some v \<Rightarrow> Ok v
      | None \<Rightarrow> if key \<in> set object_prototype_names then Unmodelled else Ok JUndefined)"
| "get_prop (JArr vs) key =
     (if key = ''length'' then Ok (JNum (int (length vs)))
      else (case array_index key of
              Some i \<Rightarrow> Ok (if i < length vs then vs ! i else JUndefined)
            | None \<Rightarrow>
                if key \<in> set array_prototype_names \<or> key \<in> set object_prototype_names
                then Unmodelled else Ok JUndefined))"
| "get_prop (JStr s) key =
     (if key = ''length'' then Ok (JNum (int (length s)))
      else (case array_index key of
              Some i \<Rightarrow> Ok (if i < length s then JStr [s ! i] else JUndefined)
            | None \<Rightarrow> Unmodelled))"
| "get_prop (JBool b) key = Unmodelled"
| "get_prop (JNum n) key = Unmodelled"

fun get_index :: "jsvalue \<Rightarrow> jsvalue \<Rightarrow> jsvalue result" where
  \<comment> \<open>\<^verbatim>\<open>v[i]\<close> for a number \<open>i\<close>\<close>
  "get_index JUndefined i = Throw TypeError"
| "get_index JNull i = Throw TypeError"
| "get_index (JArr vs) (JNum i) =
     Ok (if 0 \<le> i \<and> i < int (length vs) then vs ! nat i else JUndefined)"
| "get_index (JStr s) (JNum i) =
     Ok (if 0 \<le> i \<and> i < int (length s) then JStr [s ! nat i] else JUndefined)"
| "get_index (JObj kvs) (JNum i) = get_prop (JObj kvs) (string_of_int i)"
| "get_index v i = Unmodelled"

fun get_path :: "jsvalue \<Rightarrow> string list \<Rightarrow> jsvalue result" where
  \<comment> \<open>\<^verbatim>\<open>v.k1.k2...\<close>\<close>
  "get_path v [] = Ok v"
| "get_path v (key # keys) = bind (get_prop v key) (\<lambda>w. get_path w keys)"

subsection \<open>Comparison\<close>

text \<open>
  \<^verbatim>\<open>v === w\<close>: values of different types are different; two arrays or two objects are
  equal when they are the same object, which the plain data of the model does not record.
\<close>

fun strict_equals :: "jsvalue \<Rightarrow> jsvalue \<Rightarrow> bool result" where
  "strict_equals (JArr vs) (JArr ws) = Unmodelled"
| "strict_equals (JObj kvs) (JObj kws) = Unmodelled"
| "strict_equals v w = Ok (v = w)"

text \<open>
  The relational operators convert their operands: two strings are compared as
  strings, by code units; otherwise both operands become numbers, \<^verbatim>\<open>undefined\<close> the
  number NaN (\<open>None\<close>), \<^verbatim>\<open>null\<close> 0, \<^verbatim>\<open>false\<close> 0, \<^verbatim>\<open>true\<close> 1, a string of at
  most 15 digits its value. Other strings, and arrays and objects, are outside the model.
\<close>

fun to_number :: "jsvalue \<Rightarrow> int option result" where
  "to_number JUndefined = Ok None"
| "to_number JNull = Ok (Some 0)"
| "to_number (JBool b) = Ok (Some (if b then 1 else 0))"
| "to_number (JNum n) = Ok (Some n)"
| "to_number (JStr s) =
     (if s \<noteq> [] \<and> list_all is_digit s \<and> length s \<le> 15
      then Ok (Some (int (nat_of_digits s))) else Unmodelled)"
| "to_number (JArr vs) = Unmodelled"
| "to_number (JObj kvs) = Unmodelled"

fun string_less :: "string \<Rightarrow> string \<Rightarrow> bool" where
  "string_less [] [] = False"
| "string_less [] (y # ys) = True"
| "string_less (x # xs) [] = False"
| "string_less (x # xs) (y # ys) =
     (of_char x < (of_char y :: nat) \<or> (x = y \<and> string_less xs ys))"

fun less_than :: "jsvalue \<Rightarrow> jsvalue \<Rightarrow> bool result" where
  \<comment> \<open>\<^verbatim>\<open>v < w\<close>\<close>
  "less_than (JStr s) (JStr t) = Ok (string_less s t)"
| "less_than v w =
     bind (to_number v) (\<lambda>a. bind (to_number w) (\<lambda>b.
       Ok (case (a, b) of (Some x, Some y) \<Rightarrow> x < y | _ \<Rightarrow> False)))"

fun less_equal :: "jsvalue \<Rightarrow> jsvalue \<Rightarrow> bool result" where
  \<comment> \<open>\<^verbatim>\<open>v <= w\<close>\<close>
  "less_equal (JStr s) (JStr t) = Ok (\<not> string_less t s)"
| "less_equal v w =
     bind (to_number v) (\<lambda>a. bind (to_number w) (\<lambda>b.
       Ok (case (a, b) of (Some x, Some y) \<Rightarrow> x \<le> y | _ \<Rightarrow> False)))"

section \<open>Utilities (src/utils.js)\<close>

definition replace_char :: "char \<Rightarrow> string \<Rightarrow> string \<Rightarrow> string" where
  \<comment> \<open>\<^verbatim>\<open>s.replace(/c/g, r)\<close>\<close>
  "replace_char c r s = concat (map (\<lambda>x. if x = c then r else [x]) s)"

definition escapeHtml :: "jsvalue \<Rightarrow> string result" where
  "escapeHtml str =
     (if str = JUndefined \<or> str = JNull then Ok []
      else bind (to_string str) (\<lambda>s. Ok
        (replace_char (CHR 0x27) ''&#39;''
          (replace_char (CHR 0x22) ''&quot;''
            (replace_char CHR ''>'' ''&gt;''
              (replace_char CHR ''<'' ''&lt;''
                (replace_char CHR ''&'' ''&amp;'' s)))))))"

fun deepGet_loop :: "jsvalue \<Rightarrow> string list \<Rightarrow> jsvalue result" where
  \<comment> \<open>the \<^verbatim>\<open>for (const key of keys)\<close> loop, \<open>result\<close> the value reached\<close>
  "deepGet_loop result [] = Ok result"
| "deepGet_loop result (key # keys) =
     (if \<not> is_object result then Ok JUndefined
      else bind (get_prop result key) (\<lambda>r. deepGet_loop r keys))"

definition deepGet :: "jsvalue \<Rightarrow> string \<Rightarrow> jsvalue result" where
  "deepGet obj path =
     (if \<not> truthy obj \<or> \<not> is_object obj then Ok JUndefined
      else if path = [] then Ok obj
      else deepGet_loop obj (split CHR ''.'' path))"

section \<open>Compiler (src/compiler.js)\<close>

subsection \<open>The generated code\<close>

text \<open>
  The compiler emits the source text of a function body, line by line, and hands it to
  the host's \<^verbatim>\<open>new Function\<close>. The model keeps the statements as a tree, one
  constructor for each group of lines that the compiler emits, and keeps the text of
  every expression that the compiler pastes in:
  \<^item> \<open>PushText v\<close> is \<^verbatim>\<open>output.push(<JSON string of v>);\<close>
  \<^item> \<open>PushEscape c\<close> is \<^verbatim>\<open>output.push(__escape(c));\<close>
  \<^item> \<open>PushString c\<close> is \<^verbatim>\<open>output.push(String(c));\<close>
  \<^item> \<open>IfS b body\<close> is \<^verbatim>\<open>if (b) { body }\<close>
  \<^item> \<open>EachS id c body\<close> is
    \<^verbatim>\<open>var items_id = c; if (Array.isArray(items_id)) { for (var index_id = 0;
    index_id < items_id.length; index_id++) { var item_id = items_id[index_id]; body } }\<close>

  An expression is either source text (\<open>Source\<close>) or the call
  \<^verbatim>\<open>__get(ctx, <JSON string of path>)\<close> (\<open>Get_ctx\<close>). A condition is
  \<^verbatim>\<open>left op right\<close> (\<open>Compare\<close>) or \<^verbatim>\<open>!!c\<close> (\<open>Truthy\<close>).
\<close>

datatype code = Source string | Get_ctx string

datatype operator = StrictEq | StrictNeq | Greater | GreaterEq | Less | LessEq | And | Or

datatype condition = Compare operator code code | Truthy code

datatype stmt =
    PushText string
  | PushEscape code
  | PushString code
  | IfS condition "stmt list"
  | EachS string code "stmt list"

subsection \<open>Expressions of the host that the model reads\<close>

text \<open>
  Of the host's expression grammar the model reads three forms: a variable followed by
  property names (\<^verbatim>\<open>x.a.b\<close>), a decimal integer literal of at most 15 digits (which a
  number holds exactly), and
  a string literal without escapes. Any other text is outside the model: the model
  claims neither that it is valid nor what it evaluates to.
\<close>

datatype expr = Member string "string list" | Number nat | String_literal string

definition reserved_words :: "string list" where
  "reserved_words =
     [''break'', ''case'', ''catch'', ''class'', ''const'', ''continue'', ''debugger'',
      ''default'', ''delete'', ''do'', ''else'', ''enum'', ''export'', ''extends'', ''false'',
      ''finally'', ''for'', ''function'', ''if'', ''import'', ''in'', ''instanceof'', ''new'',
      ''null'', ''return'', ''super'', ''switch'', ''this'', ''throw'', ''true'', ''try'',
      ''typeof'', ''var'', ''void'', ''while'', ''with'', ''yield'', ''let'', ''static'',
      ''implements'', ''interface'', ''package'', ''private'', ''protected'', ''public'',
      ''await'', ''async'', ''arguments'', ''eval'', ''undefined'', ''NaN'', ''Infinity'']"

definition is_string_literal :: "string \<Rightarrow> bool" where
  "is_string_literal t \<longleftrightarrow>
     2 \<le> length t \<and> (hd t = CHR 0x27 \<or> hd t = CHR 0x22) \<and> last t = hd t \<and>
     list_all (\<lambda>c. c \<noteq> hd t \<and> c \<noteq> CHR 0x5C \<and> c \<noteq> CHR 0x0A \<and> c \<noteq> CHR 0x0D)
       (butlast (tl t))"

definition parse_expression :: "string \<Rightarrow> expr option" where
  "parse_expression t =
     (if is_decimal_literal t \<and> length t \<le> 15 then Some (Number (nat_of_digits t))
      else if is_string_literal t then Some (String_literal (butlast (tl t)))
      else if isValidPath t \<and> hd (split CHR ''.'' t) \<notin> set reserved_words
        then Some (Member (hd (split CHR ''.'' t)) (tl (split CHR ''.'' t)))
      else None)"

subsection \<open>Translation of expressions\<close>

datatype loop_context =
  LoopContext (itemName: string) (indexName: string) (parent: "loop_context option")

datatype compile_error =
    Empty_variable_expression
  | Invalid_variable_expression string
  | Unsupported_comparison_operator string
  | Invalid_condition_expression string
  | Unmodelled_source string

text \<open>
  \<open>Unmodelled_source\<close> is not an error of the compiler: it marks a template whose
  generated code has text outside the expressions that the model reads, so that the model
  cannot tell whether \<^verbatim>\<open>new Function\<close> accepts it ("Invalid complex expression",
  "Compilation failed") or what it computes.
\<close>

fun includes_method :: "string \<Rightarrow> string \<Rightarrow> bool" where
  \<comment> \<open>the test of \<^verbatim>\<open>/\.name\b/\<close>: the text \<open>m\<close> not followed by a word character\<close>
  "includes_method m [] = False"
| "includes_method m (c # cs) =
     ((starts_with m (c # cs) \<and>
        (drop (length m) (c # cs) = [] \<or> \<not> is_word (hd (drop (length m) (c # cs)))))
      \<or> includes_method m cs)"

definition isComplexExpression :: "string \<Rightarrow> bool" where
  "isComplexExpression expr \<longleftrightarrow>
     list_ex (\<lambda>m. str_includes m expr) [''('', '')'', ''+'', ''-'', ''*'', ''/''] \<or>
     list_ex (\<lambda>m. includes_method m expr)
       [''.length'', ''.split'', ''.join'', ''.toUpperCase'', ''.toLowerCase'', ''.trim'',
        ''.slice'', ''.substring'', ''.charAt'', ''.filter''] \<or>
     str_includes ''=>'' expr \<or> str_includes ''@index'' expr"

fun replace_index :: "string \<Rightarrow> string \<Rightarrow> string" where
  \<comment> \<open>\<^verbatim>\<open>s.replace(/@index/g, r)\<close>\<close>
  "replace_index r [] = []"
| "replace_index r (c # cs) =
     (if starts_with ''@index'' (c # cs) then r @ replace_index r (drop 5 cs)
      else c # replace_index r cs)"

text \<open>
  The rewriting of arrow functions is not modelled: an expression with \<^verbatim>\<open>=>\<close> is
  outside the expressions that the model reads. The validation by
  \<^verbatim>\<open>new Function('return ' + jsExpr)\<close> accepts every expression that the model
  reads.
\<close>

definition compileComplexExpression ::
  "string \<Rightarrow> loop_context option \<Rightarrow> compile_error + string" where
  "compileComplexExpression expression loopContext =
     (let jsExpr1 =
            (if str_includes ''@index'' expression then
               (case loopContext of
                  Some lc \<Rightarrow>
                    if indexName lc \<noteq> [] then replace_index (indexName lc) expression
                    else replace_index ''0'' expression
                | None \<Rightarrow> replace_index ''0'' expression)
             else expression);
          jsExpr2 =
            (case loopContext of
               Some lc \<Rightarrow>
                 if jsExpr1 = ''this'' then itemName lc
                 else if starts_with ''this.'' jsExpr1 then itemName lc @ ''.'' @ drop 5 jsExpr1
                 else jsExpr1
             | None \<Rightarrow> jsExpr1)
      in if str_includes ''=>'' jsExpr2 then Inl (Unmodelled_source expression)
         else if parse_expression jsExpr2 = None then Inl (Unmodelled_source expression)
         else Inr jsExpr2)"

definition generateAccessCode :: "string \<Rightarrow> loop_context option \<Rightarrow> compile_error + code" where
  "generateAccessCode expression loopContext =
     (if expression = ''this'' then
        Inr (Source (case loopContext of Some lc \<Rightarrow> itemName lc | None \<Rightarrow> ''ctx''))
      else if starts_with ''this.'' expression then
        (let prop = drop 5 expression
         in map_sum id Source
              (case loopContext of
                 Some lc \<Rightarrow> compileComplexExpression (itemName lc @ ''.'' @ prop) loopContext
               | None \<Rightarrow> compileComplexExpression (''ctx.'' @ prop) loopContext))
      else if isComplexExpression expression then
        map_sum id Source (compileComplexExpression expression loopContext)
      else if isValidPath expression then Inr (Get_ctx expression)
      else Inl (Invalid_variable_expression expression))"

text \<open>
  \<^verbatim>\<open>!isNaN(operand)\<close> for a trimmed operand: \<open>Some True\<close> for a decimal integer
  literal of at most 15 digits, \<open>Some False\<close> where no numeric string can start with the first character, and
  \<open>None\<close> for the other numeric forms of the host, which the model does not read.
\<close>

definition is_numeric :: "string \<Rightarrow> bool option" where
  "is_numeric operand =
     (if operand = [] then Some True
      else if is_decimal_literal operand \<and> length operand \<le> 15 then Some True
      else if is_digit (hd operand) \<or> hd operand \<in> set ''+-.'' \<or> operand = ''Infinity''
        then None
      else Some False)"

definition generateComparisonOperand ::
  "string \<Rightarrow> loop_context option \<Rightarrow> compile_error + code" where
  "generateComparisonOperand operand0 loopContext =
     (let operand = trim operand0
      in if (starts_with [CHR 0x27] operand \<and> ends_with [CHR 0x27] operand) \<or>
            (starts_with [CHR 0x22] operand \<and> ends_with [CHR 0x22] operand)
         then Inr (Source operand)
         else (case is_numeric operand of
                 None \<Rightarrow> Inl (Unmodelled_source operand)
               | Some isNumber \<Rightarrow>
                   if isNumber \<and> trim operand \<noteq> [] then Inr (Source operand)
                   else if isComplexExpression operand then
                     map_sum id Source (compileComplexExpression operand loopContext)
                   else generateAccessCode operand loopContext))"

text \<open>
  The match of \<^verbatim>\<open>/^\((\w+)\s+([^)]+)\s+([^)]+)\)$/\<close>, with its three groups. The
  text between the parentheses has no closing parenthesis. The first group is the longest
  run of word characters. For the rest \<open>r\<close> the matcher tries, in the order of the
  backtracking search, the length \<open>k\<close> of the first white space (longest first), then
  the position \<open>j\<close> where the second group ends (last first), then the length \<open>m\<close> of
  the second white space (longest first).
\<close>

fun first_some :: "('a \<Rightarrow> 'b option) \<Rightarrow> 'a list \<Rightarrow> 'b option" where
  "first_some f [] = None"
| "first_some f (x # xs) = (case f x of Some y \<Rightarrow> Some y | None \<Rightarrow> first_some f xs)"

definition match_groups :: "string \<Rightarrow> (string \<times> string) option" where
  "match_groups r =
     first_some (\<lambda>k.
       first_some (\<lambda>j.
         first_some (\<lambda>m.
           if list_all is_space (take m (drop j r)) \<and> j + m < length r
           then Some (take (j - k) (drop k r), drop (j + m) r) else None)
         (rev [1 ..< Suc (length r - j)]))
       (rev [Suc k ..< length r]))
     (rev [1 ..< Suc (length (takeWhile is_space r))])"

definition match_comparison :: "string \<Rightarrow> (string \<times> string \<times> string) option" where
  "match_comparison condition =
     (if 2 \<le> length condition \<and> hd condition = CHR ''('' \<and> last condition = CHR '')'' \<and>
         CHR '')'' \<notin> set (butlast (tl condition)) \<and>
         takeWhile is_word (butlast (tl condition)) \<noteq> []
      then map_option (\<lambda>(left, right). (takeWhile is_word (butlast (tl condition)), left, right))
             (match_groups (dropWhile is_word (butlast (tl condition))))
      else None)"

definition comparison_operator :: "string \<Rightarrow> operator option" where
  "comparison_operator operator =
     map_of [(''eq'', StrictEq), (''neq'', StrictNeq), (''gt'', Greater), (''gte'', GreaterEq),
             (''lt'', Less), (''lte'', LessEq), (''and'', And), (''or'', Or)] operator"

definition generateConditionCode ::
  "string \<Rightarrow> loop_context option \<Rightarrow> compile_error + condition" where
  "generateConditionCode condition0 loopContext =
     (let condition = trim condition0
      in case match_comparison condition of
           Some (operator, left, right) \<Rightarrow>
             (case generateComparisonOperand (trim left) loopContext of
                Inl err \<Rightarrow> Inl err
              | Inr leftCode \<Rightarrow>
                  (case generateComparisonOperand (trim right) loopContext of
                     Inl err \<Rightarrow> Inl err
                   | Inr rightCode \<Rightarrow>
                       (case comparison_operator operator of
                          Some op \<Rightarrow> Inr (Compare op leftCode rightCode)
                        | None \<Rightarrow> Inl (Unsupported_comparison_operator operator))))
         | None \<Rightarrow>
             if isComplexExpression condition then
               map_sum id Truthy (generateAccessCode condition loopContext)
             else if starts_with ''this.'' condition then
               (let prop = drop 5 condition
                in case loopContext of
                     Some lc \<Rightarrow> Inr (Truthy (Source (itemName lc @ ''.'' @ prop)))
                   | None \<Rightarrow> Inr (Truthy (Get_ctx prop)))
             else if isValidPath condition then
               map_sum id Truthy (generateAccessCode condition loopContext)
             else Inl (Invalid_condition_expression condition))"

subsection \<open>Translation of nodes\<close>

definition generateVariableCode ::
  "string \<Rightarrow> bool \<Rightarrow> loop_context option \<Rightarrow> compile_error + stmt" where
  "generateVariableCode expression isRaw loopContext =
     (if trim expression = [] then Inl Empty_variable_expression
      else map_sum id (\<lambda>accessCode. if isRaw then PushString accessCode else PushEscape accessCode)
             (generateAccessCode expression loopContext))"

text \<open>
  \<^verbatim>\<open>Math.random().toString(36).substr(2, 9)\<close> is a parameter: \<open>rnd k\<close> is the text
  that the \<open>k\<close>-th draw of one compilation gives. The functions pass on the number of
  draws made so far. \<^verbatim>\<open>_generateEachCode\<close> draws after it has translated the items
  expression and before it translates the children.
\<close>

fun generateNodeCode ::
    "(nat \<Rightarrow> string) \<Rightarrow> node \<Rightarrow> loop_context option \<Rightarrow> nat \<Rightarrow> compile_error + (stmt \<times> nat)"
  and generateChildren ::
    "(nat \<Rightarrow> string) \<Rightarrow> node list \<Rightarrow> loop_context option \<Rightarrow> nat \<Rightarrow>
       compile_error + (stmt list \<times> nat)" where
  "generateNodeCode rnd (TextN v) loopContext n = Inr (PushText v, n)"
| "generateNodeCode rnd (VariableN e) loopContext n =
     map_sum id (\<lambda>s. (s, n)) (generateVariableCode e False loopContext)"
| "generateNodeCode rnd (RawVariableN e) loopContext n =
     map_sum id (\<lambda>s. (s, n)) (generateVariableCode e True loopContext)"
| "generateNodeCode rnd (IfN cond children) loopContext n =
     (case generateConditionCode cond loopContext of
        Inl err \<Rightarrow> Inl err
      | Inr conditionCode \<Rightarrow>
          (case generateChildren rnd children loopContext n of
             Inl err \<Rightarrow> Inl err
           | Inr (body, n') \<Rightarrow> Inr (IfS conditionCode body, n')))"
| "generateNodeCode rnd (EachN items children) parentLoopContext n =
     (case generateAccessCode items parentLoopContext of
        Inl err \<Rightarrow> Inl err
      | Inr itemsCode \<Rightarrow>
          (case generateChildren rnd children
                  (Some (LoopContext (''item_'' @ rnd n) (''index_'' @ rnd n) parentLoopContext))
                  (Suc n) of
             Inl err \<Rightarrow> Inl err
           | Inr (body, n') \<Rightarrow> Inr (EachS (rnd n) itemsCode body, n')))"
| "generateChildren rnd [] loopContext n = Inr ([], n)"
| "generateChildren rnd (child # children) loopContext n =
     (case generateNodeCode rnd child loopContext n of
        Inl err \<Rightarrow> Inl err
      | Inr (s, n1) \<Rightarrow>
          (case generateChildren rnd children loopContext n1 of
             Inl err \<Rightarrow> Inl err
           | Inr (ss, n2) \<Rightarrow> Inr (s # ss, n2)))"

text \<open>
  \<^verbatim>\<open>new Function('ctx', jsCode)\<close> accepts the code when every expression in it is one
  that the model reads and every loop identifier is made of identifier characters.
\<close>

fun readable_code :: "code \<Rightarrow> bool" where
  "readable_code (Source t) = (parse_expression t \<noteq> None)"
| "readable_code (Get_ctx path) = True"

fun readable_condition :: "condition \<Rightarrow> bool" where
  "readable_condition (Compare op l r) = (readable_code l \<and> readable_code r)"
| "readable_condition (Truthy c) = readable_code c"

fun readable :: "stmt \<Rightarrow> bool" where
  "readable (PushText v) = True"
| "readable (PushEscape c) = readable_code c"
| "readable (PushString c) = readable_code c"
| "readable (IfS b body) = (readable_condition b \<and> list_all readable body)"
| "readable (EachS loopId c body) =
     (list_all is_id_part loopId \<and> readable_code c \<and> list_all readable body)"

definition compile :: "(nat \<Rightarrow> string) \<Rightarrow> ast \<Rightarrow> compile_error + stmt list" where
  "compile rnd a =
     (case a of Root children \<Rightarrow>
        (case generateChildren rnd children None 0 of
           Inl err \<Rightarrow> Inl err
         | Inr (jsCode, n) \<Rightarrow>
             if list_all readable jsCode then Inr jsCode else Inl (Unmodelled_source [])))"

section \<open>The engine (index.js)\<close>

datatype error =
    Tokenize_error tokenize_error
  | Parse_error parse_error
  | Compile_error compile_error

definition Jframe_compile :: "(nat \<Rightarrow> string) \<Rightarrow> string \<Rightarrow> error + stmt list" where
  "Jframe_compile rnd template =
     (case tokenize template of
        Inl err \<Rightarrow> Inl (Tokenize_error err)
      | Inr tokens \<Rightarrow>
          (case parse tokens of
             Inl err \<Rightarrow> Inl (Parse_error err)
           | Inr a \<Rightarrow>
               (case compile rnd a of
                  Inl err \<Rightarrow> Inl (Compile_error err)
                | Inr artifact \<Rightarrow> Inr artifact)))"

section \<open>Running the compiled artifact\<close>

text \<open>
  The artifact runs with its variables in \<open>env\<close> and, in \<open>out\<close>, the array
  \<^verbatim>\<open>output\<close> of the strings pushed so far. Variables declared with \<^verbatim>\<open>var\<close> belong to the whole function,
  so a loop assigns to variables that are still there after it. A variable that the
  function has not assigned is outside the model (it may be a global one of the host).
\<close>

record state =
  env :: "string \<Rightarrow> jsvalue option"
  out :: "string list"

definition push :: "string \<Rightarrow> state \<Rightarrow> state" where
  "push s st = st\<lparr>out := out st @ [s]\<rparr>"

definition assign :: "string \<Rightarrow> jsvalue \<Rightarrow> state \<Rightarrow> state" where
  "assign x v st = st\<lparr>env := (env st)(x \<mapsto> v)\<rparr>"

fun eval_expression :: "(string \<Rightarrow> jsvalue option) \<Rightarrow> expr \<Rightarrow> jsvalue result" where
  "eval_expression e (Member x keys) =
     (case e x of None \<Rightarrow> Unmodelled | Some v \<Rightarrow> get_path v keys)"
| "eval_expression e (Number n) = Ok (JNum (int n))"
| "eval_expression e (String_literal s) = Ok (JStr s)"

fun eval_code :: "(string \<Rightarrow> jsvalue option) \<Rightarrow> code \<Rightarrow> jsvalue result" where
  "eval_code e (Source t) =
     (case parse_expression t of None \<Rightarrow> Unmodelled | Some x \<Rightarrow> eval_expression e x)"
| "eval_code e (Get_ctx path) =
     (case e ''ctx'' of None \<Rightarrow> Unmodelled | Some c \<Rightarrow> deepGet c path)"

fun apply_operator :: "operator \<Rightarrow> jsvalue \<Rightarrow> jsvalue \<Rightarrow> bool result" where
  "apply_operator StrictEq v w = strict_equals v w"
| "apply_operator StrictNeq v w = bind (strict_equals v w) (\<lambda>b. Ok (\<not> b))"
| "apply_operator Greater v w = less_than w v"
| "apply_operator GreaterEq v w = less_equal w v"
| "apply_operator Less v w = less_than v w"
| "apply_operator LessEq v w = less_equal v w"
| "apply_operator And v w = Ok (truthy v \<and> truthy w)"
| "apply_operator Or v w = Ok (truthy v \<or> truthy w)"

fun eval_condition :: "(string \<Rightarrow> jsvalue option) \<Rightarrow> condition \<Rightarrow> bool result" where
  "eval_condition e (Truthy c) = bind (eval_code e c) (\<lambda>v. Ok (truthy v))"
| "eval_condition e (Compare And l r) =
     bind (eval_code e l) (\<lambda>v.
       if truthy v then bind (eval_code e r) (\<lambda>w. Ok (truthy w)) else Ok False)"
| "eval_condition e (Compare Or l r) =
     bind (eval_code e l) (\<lambda>v.
       if truthy v then Ok True else bind (eval_code e r) (\<lambda>w. Ok (truthy w)))"
| "eval_condition e (Compare op l r) =
     bind (eval_code e l) (\<lambda>v. bind (eval_code e r) (\<lambda>w. apply_operator op v w))"

lemma bind_cong [fundef_cong]:
  "r = r' \<Longrightarrow> (\<And>x. r' = Ok x \<Longrightarrow> f x = f' x) \<Longrightarrow> bind r f = bind r' f'"
  by (cases r') auto

text \<open>
  The statements. \<open>fuel\<close> bounds the iterations of a loop: each iteration runs with
  one unit less, and a loop with none left is cut off with \<open>OutOfFuel\<close>. In
  \<open>for_loop\<close> the loop variables are read from \<open>env\<close> at every iteration, as the
  generated \<^verbatim>\<open>for\<close> statement does.
\<close>

fun exec :: "nat \<Rightarrow> stmt \<Rightarrow> state \<Rightarrow> state result"
  and exec_list :: "nat \<Rightarrow> stmt list \<Rightarrow> state \<Rightarrow> state result"
  and for_loop :: "nat \<Rightarrow> string \<Rightarrow> stmt list \<Rightarrow> state \<Rightarrow> state result" where
  "exec fuel (PushText v) st = Ok (push v st)"
| "exec fuel (PushEscape c) st =
     bind (eval_code (env st) c) (\<lambda>v. bind (escapeHtml v) (\<lambda>s. Ok (push s st)))"
| "exec fuel (PushString c) st =
     bind (eval_code (env st) c) (\<lambda>v. bind (to_string v) (\<lambda>s. Ok (push s st)))"
| "exec fuel (IfS b body) st =
     bind (eval_condition (env st) b) (\<lambda>t. if t then exec_list fuel body st else Ok st)"
| "exec fuel (EachS loopId c body) st =
     bind (eval_code (env st) c) (\<lambda>v.
       if is_array v
       then for_loop fuel loopId body
              (assign (''index_'' @ loopId) (JNum 0) (assign (''items_'' @ loopId) v st))
       else Ok (assign (''items_'' @ loopId) v st))"
| "exec_list fuel [] st = Ok st"
| "exec_list fuel (s # ss) st = bind (exec fuel s st) (\<lambda>st'. exec_list fuel ss st')"
| "for_loop 0 loopId body st = OutOfFuel"
| "for_loop (Suc fuel) loopId body st =
     (case (env st (''index_'' @ loopId), env st (''items_'' @ loopId)) of
        (Some i, Some items) \<Rightarrow>
          bind (get_prop items ''length'') (\<lambda>len.
          bind (less_than i len) (\<lambda>t.
            if t then
              bind (get_index items i) (\<lambda>item.
              bind (exec_list fuel body (assign (''item_'' @ loopId) item st)) (\<lambda>st'.
                case env st' (''index_'' @ loopId) of
                  Some (JNum k) \<Rightarrow>
                    for_loop fuel loopId body (assign (''index_'' @ loopId) (JNum (k + 1)) st')
                | _ \<Rightarrow> Unmodelled))
            else Ok st))
      | _ \<Rightarrow> Unmodelled)"

definition invoke :: "nat \<Rightarrow> stmt list \<Rightarrow> jsvalue \<Rightarrow> string result" where
  \<comment> \<open>the call of the artifact with a context; it returns \<^verbatim>\<open>output.join("")\<close>\<close>
  "invoke fuel artifact ctx =
     bind (exec_list fuel artifact \<lparr>env = [''ctx'' \<mapsto> ctx], out = []\<rparr>)
       (\<lambda>st. Ok (concat (out st)))"

definition render :: "(nat \<Rightarrow> string) \<Rightarrow> nat \<Rightarrow> string \<Rightarrow> jsvalue \<Rightarrow> error + string result" where
  \<comment> \<open>compile the template and call the artifact\<close>
  "render rnd fuel template ctx =
     map_sum id (\<lambda>artifact. invoke fuel artifact ctx) (Jframe_compile rnd template)"

section \<open>Properties of the tokenizer\<close>

lemma trim_last: "trim s \<noteq> [] \<Longrightarrow> \<not> is_space (last (trim s))"
  by (simp add: trim_def last_rev hd_dropWhile)

lemma trim_nonempty:
  assumes "t \<noteq> []" and "\<not> is_space (last t)"
  shows "trim t \<noteq> []"
proof -
  let ?d = "dropWhile is_space t"
  have "last t \<in> set t" using assms(1) by simp
  with assms(2) have d: "?d \<noteq> []" by (auto simp: dropWhile_eq_Nil_conv)
  have "t = takeWhile is_space t @ ?d" by simp
  with d have "last t = last ?d" by (metis last_appendR)
  with assms(2) d have "\<not> is_space (hd (rev ?d))" by (simp add: hd_rev)
  with d have "dropWhile is_space (rev ?d) = rev ?d" by (cases "rev ?d") auto
  with d show ?thesis by (simp add: trim_def)
qed

lemma if_condition_never_empty:
  assumes "starts_with ''#if '' (trim s)"
  shows "trim (drop 4 (trim s)) \<noteq> []"
proof -
  let ?t = "trim s"
  have l4: "length ''#if '' = 4" by simp
  from assms have tk: "take 4 ?t = ''#if ''" unfolding starts_with_def l4 .
  then have ne: "?t \<noteq> []" by auto
  have split: "?t = ''#if '' @ drop 4 ?t" using tk append_take_drop_id[of 4 ?t] by simp
  from trim_last[OF ne] have nl: "\<not> is_space (last ?t)" .
  show ?thesis
  proof (cases "drop 4 ?t = []")
    case True
    with split have "?t = ''#if ''" by simp
    with nl show ?thesis by (simp add: is_space_def)
  next
    case False
    with split have "last ?t = last (drop 4 ?t)" by (metis last_appendR)
    with nl False show ?thesis by (simp add: trim_nonempty)
  qed
qed

lemma processExpression_trim_not_if_error:
  "processExpression (trim x) isRaw tokens \<noteq> Inl If_requires_condition"
  using if_condition_never_empty[of x]
  by (simp add: processExpression_def Let_def)

text \<open>
  The error of an if directive without a condition cannot be raised by the scanning
  loop: the marker's content is trimmed before it is classified, so content that starts
  with \<^verbatim>\<open>#if \<close> always has a condition left after the prefix.
\<close>

lemma if_error_unreachable: "tokenize_loop position rest tokens textBuffer \<noteq> Inl If_requires_condition"
proof (induct position rest tokens textBuffer rule: tokenize_loop.induct)
  case (1 position rest tokens textBuffer)
  show ?case
  proof (cases "rest = []")
    case True
    then show ?thesis by (subst tokenize_loop.simps) simp
  next
    case ne: False
    show ?thesis
    proof (cases "rest ! 0 = CHR ''{'' \<and> 1 < length rest \<and> rest ! 1 = CHR ''{''")
      case False
      have "tokenize_loop position rest tokens textBuffer =
              tokenize_loop (position + 1) (drop 1 rest) tokens (textBuffer @ [rest ! 0])"
        by (subst tokenize_loop.simps) (simp only: ne False if_False)
      with "1.hyps"(2)[OF ne False] show ?thesis by simp
    next
      case True
      define isRaw where "isRaw = (2 < length rest \<and> rest ! 2 = CHR ''{'')"
      define exprStart :: nat where "exprStart = (if isRaw then 3 else 2)"
      define closeMarker where "closeMarker = (if isRaw then ''}}}'' else ''}}'')"
      show ?thesis
      proof (cases "index_of closeMarker (drop exprStart rest)")
        case None
        with ne True show ?thesis
          by (subst tokenize_loop.simps) (simp add: Let_def isRaw_def exprStart_def closeMarker_def)
      next
        case (Some n)
        show ?thesis
        proof (cases "processExpression (trim (take n (drop exprStart rest))) isRaw (flush_text tokens textBuffer)")
          case (Inl e)
          with processExpression_trim_not_if_error have "e \<noteq> If_requires_condition" by metis
          with ne True Some Inl show ?thesis
            by (subst tokenize_loop.simps) (simp add: Let_def isRaw_def exprStart_def closeMarker_def)
        next
          case (Inr tokens2)
          have "tokenize_loop (position + exprStart + n + length closeMarker)
                  (drop (exprStart + n + length closeMarker) rest) tokens2 [] \<noteq> Inl If_requires_condition"
            using "1.hyps"(1)[OF ne True refl _ _ _ Some Inr]
            by (simp add: isRaw_def exprStart_def closeMarker_def)
          with ne True Some Inr show ?thesis
            by (subst tokenize_loop.simps) (simp add: Let_def isRaw_def exprStart_def closeMarker_def)
        qed
      qed
    qed
  qed
qed

text \<open>
  C8. A double-delimited marker that carries \<^verbatim>\<open>#if\<close> and no condition, such as
  \<^verbatim>\<open>{{#if }}\<close>, should make scanning fail with "If directive requires a condition".
  The scanner trims the content to \<^verbatim>\<open>#if\<close> first, which no longer starts with
  \<^verbatim>\<open>#if \<close>, and emits a variable token for it.
\<close>

theorem if_without_condition_is_variable:
  "tokenize ''{{#if }}'' = Inr [VAR ''#if'']"
  by code_simp

text \<open>
  The scanner goes through a prefix that does not end in an opening brace the same
  way whatever follows it, and the tokens it emits behind a marker do not depend on
  the tokens emitted before it.
\<close>

lemma starts_with_length: "starts_with m s \<Longrightarrow> length m \<le> length s"
proof -
  assume "starts_with m s"
  then have "length (take (length m) s) = length m" by (simp add: starts_with_def)
  then show ?thesis by simp
qed

lemma starts_with_append:
  "length m \<le> length s \<Longrightarrow> starts_with m (s @ t) = starts_with m s"
  by (simp add: starts_with_def)

lemma index_of_bound: "index_of m s = Some n \<Longrightarrow> n + length m \<le> length s"
proof (induction s arbitrary: n)
  case Nil
  then show ?case by (simp split: if_splits)
next
  case (Cons c cs)
  show ?case
  proof (cases "starts_with m (c # cs)")
    case True
    with starts_with_length[OF True] Cons.prems show ?thesis by simp
  next
    case False
    with Cons.prems obtain k where "index_of m cs = Some k" "n = Suc k" by auto
    with Cons.IH show ?thesis by auto
  qed
qed

lemma index_of_append: "index_of m s = Some n \<Longrightarrow> index_of m (s @ t) = Some n"
proof (induction s arbitrary: n)
  case Nil
  then have "m = []" "n = 0" by (simp_all split: if_splits)
  then show ?case by (cases t) (simp_all add: starts_with_def)
next
  case (Cons c cs)
  show ?case
  proof (cases "starts_with m (c # cs)")
    case True
    from starts_with_append[OF starts_with_length[OF True], of t] True
    have "starts_with m (c # (cs @ t))" by simp
    with True Cons.prems show ?thesis by simp
  next
    case False
    with Cons.prems obtain k where k: "index_of m cs = Some k" "n = Suc k" by auto
    from index_of_bound[OF k(1)] have "length m \<le> length (c # cs)" by simp
    from starts_with_append[OF this, of t] False
    have "\<not> starts_with m (c # (cs @ t))" by simp
    with False k Cons.IH show ?thesis by simp
  qed
qed

lemma flush_text_tokens: "flush_text tokens b = tokens @ flush_text [] b"
  by (simp add: flush_text_def)


lemma processExpression_tokens:
  "processExpression e r tokens =
     (case processExpression e r [] of Inl err \<Rightarrow> Inl err | Inr ts \<Rightarrow> Inr (tokens @ ts))"
  by (simp add: processExpression_def Let_def)

lemma processExpression_single:
  "processExpression e r [] = Inr ts \<Longrightarrow> \<exists>t. ts = [t]"
  by (auto simp: processExpression_def Let_def split: if_splits)

lemma tokenize_loop_tokens:
  "tokenize_loop p rest tokens b = Inr ts \<Longrightarrow>
     \<exists>ts'. ts = tokens @ ts' \<and> (\<forall>p' tokens'. tokenize_loop p' rest tokens' b = Inr (tokens' @ ts'))"
proof (induction p rest tokens b arbitrary: ts rule: tokenize_loop.induct)
  case (1 position rest tokens textBuffer)
  show ?case
  proof (cases "rest = []")
    case True
    with "1.prems" have "ts = tokens @ flush_text [] textBuffer"
      using flush_text_tokens[of tokens textBuffer] by (simp add: tokenize_loop.simps[of _ "[]"])
    moreover have "tokenize_loop p' rest tokens' textBuffer
        = Inr (tokens' @ flush_text [] textBuffer)" for p' tokens'
      using True flush_text_tokens[of tokens' textBuffer] by (simp add: tokenize_loop.simps[of _ "[]"])
    ultimately show ?thesis by blast
  next
    case ne: False
    show ?thesis
    proof (cases "rest ! 0 = CHR ''{'' \<and> 1 < length rest \<and> rest ! 1 = CHR ''{''")
      case False
      have unf: "\<And>p t. tokenize_loop p rest t textBuffer =
              tokenize_loop (p + 1) (drop 1 rest) t (textBuffer @ [rest ! 0])"
        by (subst tokenize_loop.simps) (simp only: ne False if_False)
      from "1.prems" unf have "tokenize_loop (position + 1) (drop 1 rest) tokens (textBuffer @ [rest ! 0]) = Inr ts"
        by simp
      from "1.IH"(2)[OF ne False this] unf show ?thesis by auto
    next
      case True
      define isRaw where "isRaw = (2 < length rest \<and> rest ! 2 = CHR ''{'')"
      define exprStart :: nat where "exprStart = (if isRaw then 3 else 2)"
      define closeMarker where "closeMarker = (if isRaw then ''}}}'' else ''}}'')"
      show ?thesis
      proof (cases "index_of closeMarker (drop exprStart rest)")
        case None
        have "tokenize_loop position rest tokens textBuffer = Inl (Unclosed_expression position)"
          using ne True None
          by (subst tokenize_loop.simps) (simp add: Let_def isRaw_def exprStart_def closeMarker_def)
        with "1.prems" show ?thesis by simp
      next
        case (Some n)
        let ?e = "trim (take n (drop exprStart rest))"
        show ?thesis
        proof (cases "processExpression ?e isRaw []")
          case (Inl err)
          then have "processExpression ?e isRaw (flush_text tokens textBuffer) = Inl err"
            using processExpression_tokens[of ?e isRaw "flush_text tokens textBuffer"] by simp
          then have "tokenize_loop position rest tokens textBuffer = Inl err"
            using ne True Some
            by (subst tokenize_loop.simps) (simp add: Let_def isRaw_def exprStart_def closeMarker_def)
          with "1.prems" show ?thesis by simp
        next
          case (Inr one)
          with processExpression_single[of ?e isRaw one] obtain t where
            t0: "processExpression ?e isRaw [] = Inr [t]" by auto
          have t: "processExpression ?e isRaw tokens' = Inr (tokens' @ [t])" for tokens'
            using t0 processExpression_tokens[of ?e isRaw tokens'] by simp
          have step: "tokenize_loop p' rest tokens' textBuffer =
              tokenize_loop (p' + exprStart + n + length closeMarker)
                (drop (exprStart + n + length closeMarker) rest) (flush_text tokens' textBuffer @ [t]) []"
            for p' tokens'
            using ne True Some t[of "flush_text tokens' textBuffer"]
            by (subst tokenize_loop.simps) (simp add: Let_def isRaw_def exprStart_def closeMarker_def)
          from "1.prems" step have rec: "tokenize_loop (position + exprStart + n + length closeMarker)
                (drop (exprStart + n + length closeMarker) rest) (flush_text tokens textBuffer @ [t]) []
              = Inr ts" by simp
          have "\<exists>ts'. ts = (flush_text tokens textBuffer @ [t]) @ ts' \<and>
              (\<forall>p' tokens'. tokenize_loop p' (drop (exprStart + n + length closeMarker) rest) tokens' []
                  = Inr (tokens' @ ts'))"
            using "1.IH"(1)[OF ne True refl _ _ _ Some t[of "flush_text tokens textBuffer"] rec]
            by (simp add: isRaw_def exprStart_def closeMarker_def)
          then obtain ts' where ts': "ts = (flush_text tokens textBuffer @ [t]) @ ts'"
             "\<And>p' tokens'. tokenize_loop p' (drop (exprStart + n + length closeMarker) rest) tokens' []
                  = Inr (tokens' @ ts')" by blast
          have "ts = tokens @ (flush_text [] textBuffer @ [t] @ ts')"
            using ts'(1) flush_text_tokens[of tokens textBuffer] by simp
          moreover have "tokenize_loop p' rest tokens' textBuffer
              = Inr (tokens' @ (flush_text [] textBuffer @ [t] @ ts'))" for p' tokens'
            using step[of p' tokens'] ts'(2)[of _ "flush_text tokens' textBuffer @ [t]"]
              flush_text_tokens[of tokens' textBuffer] by simp
          ultimately show ?thesis by blast
        qed
      qed
    qed
  qed
qed



lemma last_drop: "drop k xs \<noteq> [] \<Longrightarrow> last (drop k xs) = last xs"
  by (metis append_take_drop_id last_appendR)

lemma tokenize_loop_before_marker:
  "tokenize_loop p pre tokens b = Inr tp \<Longrightarrow> pre = [] \<or> last pre \<noteq> CHR ''{'' \<Longrightarrow>
     \<exists>tokens1 b1. flush_text tokens1 b1 = tp \<and>
       (\<forall>X. tokenize_loop p (pre @ ''{{'' @ X) tokens b
              = tokenize_loop (p + length pre) (''{{'' @ X) tokens1 b1)"
proof (induction p pre tokens b arbitrary: tp rule: tokenize_loop.induct)
  case (1 position rest tokens textBuffer)
  show ?case
  proof (cases "rest = []")
    case True
    with "1.prems"(1) have "flush_text tokens textBuffer = tp"
      by (simp add: tokenize_loop.simps[of _ "[]"])
    with True show ?thesis by auto
  next
    case ne: False
    from ne "1.prems"(2) have nb: "last rest \<noteq> CHR ''{''" by simp
    show ?thesis
    proof (cases "rest ! 0 = CHR ''{'' \<and> 1 < length rest \<and> rest ! 1 = CHR ''{''")
      case False
      have unf: "tokenize_loop position rest tokens textBuffer =
              tokenize_loop (position + 1) (drop 1 rest) tokens (textBuffer @ [rest ! 0])"
        by (subst tokenize_loop.simps) (simp only: ne False if_False)
      have l: "drop 1 rest = [] \<or> last (drop 1 rest) \<noteq> CHR ''{''"
        using nb last_drop[of 1 rest] by auto
      from "1.IH"(2)[OF ne False _ l] "1.prems"(1) unf obtain tokens1 b1 where
        f: "flush_text tokens1 b1 = tp" and
        r: "\<And>X. tokenize_loop (position + 1) (drop 1 rest @ ''{{'' @ X) tokens (textBuffer @ [rest ! 0])
              = tokenize_loop (position + 1 + length (drop 1 rest)) (''{{'' @ X) tokens1 b1"
        by auto
      have "tokenize_loop position (rest @ ''{{'' @ X) tokens textBuffer
              = tokenize_loop (position + length rest) (''{{'' @ X) tokens1 b1" for X
      proof -
        define whole where "whole = rest @ ''{{'' @ X"
        from ne have len: "1 \<le> length rest" by (cases rest) auto
        have w: "whole \<noteq> []" "whole ! 0 = rest ! 0" "drop 1 whole = drop 1 rest @ ''{{'' @ X"
          using ne len by (simp_all add: whole_def nth_append)
        have c: "\<not> (whole ! 0 = CHR ''{'' \<and> 1 < length whole \<and> whole ! 1 = CHR ''{'')"
        proof (cases "1 < length rest")
          case True
          then have "whole ! 1 = rest ! 1" by (simp add: whole_def nth_append)
          with w(2) False True show ?thesis by simp
        next
          case False
          with ne have "length rest = 1" by (cases rest) auto
          then have "last rest = rest ! 0" by (cases rest) auto
          with nb w(2) show ?thesis by simp
        qed
        have "tokenize_loop position whole tokens textBuffer =
              tokenize_loop (position + 1) (drop 1 whole) tokens (textBuffer @ [whole ! 0])"
          by (subst tokenize_loop.simps) (simp only: w(1) c if_False)
        also have "\<dots> = tokenize_loop (position + 1 + length (drop 1 rest)) (''{{'' @ X) tokens1 b1"
          using r[of X] w by simp
        also have "position + 1 + length (drop 1 rest) = position + length rest"
          using ne by (cases rest) auto
        finally show ?thesis by (simp add: whole_def)
      qed
      with f show ?thesis by blast
    next
      case True
      define isRaw where "isRaw = (2 < length rest \<and> rest ! 2 = CHR ''{'')"
      define exprStart :: nat where "exprStart = (if isRaw then 3 else 2)"
      define closeMarker where "closeMarker = (if isRaw then ''}}}'' else ''}}'')"
      show ?thesis
      proof (cases "index_of closeMarker (drop exprStart rest)")
        case None
        have "tokenize_loop position rest tokens textBuffer = Inl (Unclosed_expression position)"
          using ne True None
          by (subst tokenize_loop.simps) (simp add: Let_def isRaw_def exprStart_def closeMarker_def)
        with "1.prems"(1) show ?thesis by simp
      next
        case (Some n)
        let ?e = "trim (take n (drop exprStart rest))"
        define k where "k = exprStart + n + length closeMarker"
        have cm: "0 < length closeMarker" by (simp add: closeMarker_def)
        from index_of_bound[OF Some] have nk: "n + length closeMarker \<le> length rest - exprStart"
          by simp
        with cm have es: "exprStart < length rest" by linarith
        from nk es have k: "k \<le> length rest" unfolding k_def by linarith
        from es have l2: "2 < length rest" by (auto simp: exprStart_def split: if_splits)
        show ?thesis
        proof (cases "processExpression ?e isRaw (flush_text tokens textBuffer)")
          case (Inl err)
          then have "tokenize_loop position rest tokens textBuffer = Inl err"
            using ne True Some
            by (subst tokenize_loop.simps) (simp add: Let_def isRaw_def exprStart_def closeMarker_def)
          with "1.prems"(1) show ?thesis by simp
        next
          case (Inr tokens2)
          have step: "tokenize_loop position rest tokens textBuffer =
              tokenize_loop (position + exprStart + n + length closeMarker)
                (drop (exprStart + n + length closeMarker) rest) tokens2 []"
            using ne True Some Inr
            by (subst tokenize_loop.simps)
               (simp add: Let_def isRaw_def exprStart_def closeMarker_def)
          with "1.prems"(1) have rec: "tokenize_loop (position + exprStart + n + length closeMarker)
              (drop (exprStart + n + length closeMarker) rest) tokens2 [] = Inr tp"
            by simp
          have pk: "position + exprStart + n + length closeMarker = position + k"
            by (simp add: k_def)
          have l: "drop (exprStart + n + length closeMarker) rest = [] \<or>
              last (drop (exprStart + n + length closeMarker) rest) \<noteq> CHR ''{''"
            using nb last_drop[of "exprStart + n + length closeMarker" rest] by auto
          have "\<exists>tokens1 b1. flush_text tokens1 b1 = tp \<and>
              (\<forall>X. tokenize_loop (position + k) (drop k rest @ ''{{'' @ X) tokens2 []
                 = tokenize_loop (position + k + length (drop k rest)) (''{{'' @ X) tokens1 b1)"
            using "1.IH"(1)[OF ne True refl _ _ _ Some Inr rec l]
            unfolding pk k_def[symmetric]
            by (simp add: isRaw_def exprStart_def closeMarker_def)
          then obtain tokens1 b1 where
            f: "flush_text tokens1 b1 = tp" and
            r: "\<And>X. tokenize_loop (position + k) (drop k rest @ ''{{'' @ X) tokens2 []
                 = tokenize_loop (position + k + length (drop k rest)) (''{{'' @ X) tokens1 b1"
            by blast
          have "tokenize_loop position (rest @ ''{{'' @ X) tokens textBuffer
              = tokenize_loop (position + length rest) (''{{'' @ X) tokens1 b1" for X
          proof -
            define whole where "whole = rest @ ''{{'' @ X"
            have w: "whole \<noteq> []" "whole ! 0 = CHR ''{'' \<and> 1 < length whole \<and> whole ! 1 = CHR ''{''"
              "(2 < length whole \<and> whole ! 2 = CHR ''{'') = isRaw"
              using ne True l2 by (auto simp: whole_def nth_append isRaw_def)
            have d: "drop exprStart whole = drop exprStart rest @ ''{{'' @ X"
              using es by (simp add: whole_def)
            have i: "index_of closeMarker (drop exprStart whole) = Some n"
              unfolding d by (rule index_of_append[OF Some])
            have t: "take n (drop exprStart whole) = take n (drop exprStart rest)"
              unfolding d using nk by simp
            have dk: "drop (exprStart + n + length closeMarker) whole = drop k rest @ ''{{'' @ X"
              using k by (simp add: whole_def k_def)
            have "tokenize_loop position whole tokens textBuffer =
                tokenize_loop (position + exprStart + n + length closeMarker)
                  (drop (exprStart + n + length closeMarker) whole) tokens2 []"
              using w i t Inr
              by (subst tokenize_loop.simps)
                 (simp add: Let_def exprStart_def closeMarker_def)
            also have "\<dots> = tokenize_loop (position + k) (drop k rest @ ''{{'' @ X) tokens2 []"
              by (simp only: dk pk)
            also have "\<dots> = tokenize_loop (position + k + length (drop k rest)) (''{{'' @ X) tokens1 b1"
              by (rule r)
            also have "position + k + length (drop k rest) = position + length rest"
              using k by simp
            finally show ?thesis by (simp add: whole_def)
          qed
          with f show ?thesis by blast
        qed
      qed
    qed
  qed
qed


lemma raw_marker_step:
  assumes "index_of ''}}}'' (inner @ ''}}}'' @ post) = Some (length inner)"
  shows "tokenize_loop position (''{{{'' @ inner @ ''}}}'' @ post) tokens textBuffer =
      tokenize_loop (position + 3 + length inner + 3) post
        (flush_text tokens textBuffer @ [RAW (trim inner)]) []"
proof -
  define rest where "rest = ''{{{'' @ inner @ ''}}}'' @ post"
  have d: "drop (3 + length inner + length ''}}}'') rest = post"
    by (simp add: rest_def numeral_eq_Suc)
  have d3: "drop 3 rest = inner @ ''}}}'' @ post"
    by (simp add: rest_def numeral_eq_Suc)
  have c: "rest \<noteq> []" "rest ! 0 = CHR ''{'' \<and> 1 < length rest \<and> rest ! 1 = CHR ''{''"
      "2 < length rest \<and> rest ! 2 = CHR ''{''"
    by (simp_all add: rest_def numeral_eq_Suc)
  have "tokenize_loop position rest tokens textBuffer =
    tokenize_loop (position + 3 + length inner + 3) post
      (flush_text tokens textBuffer @ [RAW (trim inner)]) []"
    using c d d3 assms
    by (subst tokenize_loop.simps) (simp add: Let_def processExpression_def)
  then show ?thesis by (simp add: rest_def)
qed

lemma tokenize_continue:
  assumes "tokenize post = Inr after"
  shows "tokenize_loop position post tokens [] = Inr (tokens @ after)"
proof (cases "post = []")
  case True
  with assms have "after = []" by (simp add: tokenize_def)
  with True show ?thesis
    by (subst tokenize_loop.simps) (simp add: flush_text_def)
next
  case False
  with assms have "tokenize_loop 0 post [] [] = Inr after" by (simp add: tokenize_def)
  from tokenize_loop_tokens[OF this] show ?thesis by auto
qed

text \<open>
  C10. A triple-delimited marker whose closing delimiter is the first \<^verbatim>\<open>}}}\<close> after
  the opener makes \<open>tokenize\<close> emit a raw variable token with the trimmed content,
  whatever the content is: where the template before the marker and the template
  behind it are tokenized, the whole template is tokenized to the tokens of the
  first, the raw variable token, and the tokens of the second. Classifying the
  content of a raw marker never fails.
\<close>

theorem raw_marker:
  assumes pre: "tokenize pre = Inr before"
    and edge: "pre = [] \<or> last pre \<noteq> CHR ''{''"
    and close: "index_of ''}}}'' (inner @ ''}}}'' @ post) = Some (length inner)"
    and post: "tokenize post = Inr after"
  shows "processExpression expression True tokens = Inr (tokens @ [RAW expression]) \<and>
    tokenize (pre @ ''{{{'' @ inner @ ''}}}'' @ post) = Inr (before @ RAW (trim inner) # after)"
proof -
  have "tokenize_loop 0 pre [] [] = Inr before"
  proof (cases "pre = []")
    case True
    with pre have "before = []" by (simp add: tokenize_def)
    with True show ?thesis by (subst tokenize_loop.simps) (simp add: flush_text_def)
  next
    case False
    with pre show ?thesis by (simp add: tokenize_def)
  qed
  from tokenize_loop_before_marker[OF this edge] obtain tokens1 b1 where
    f: "flush_text tokens1 b1 = before" and
    r: "\<And>X. tokenize_loop 0 (pre @ ''{{'' @ X) [] []
           = tokenize_loop (0 + length pre) (''{{'' @ X) tokens1 b1"
    by blast
  have "tokenize (pre @ ''{{{'' @ inner @ ''}}}'' @ post)
      = tokenize_loop 0 (pre @ ''{{'' @ (''{'' @ inner @ ''}}}'' @ post)) [] []"
    by (simp add: tokenize_def)
  also have "\<dots> = tokenize_loop (0 + length pre) (''{{{'' @ inner @ ''}}}'' @ post) tokens1 b1"
    using r[of "''{'' @ inner @ ''}}}'' @ post"] by simp
  also have "\<dots> = tokenize_loop (0 + length pre + 3 + length inner + 3) post
        (before @ [RAW (trim inner)]) []"
    using raw_marker_step[OF close, of "0 + length pre" tokens1 b1] f by simp
  also have "\<dots> = Inr ((before @ [RAW (trim inner)]) @ after)"
    by (rule tokenize_continue[OF post])
  finally show ?thesis by (simp add: processExpression_def)
qed

theorem raw_marker_witness:
  "tokenize ''a'' = Inr [TEXT ''a''] \<and>
   index_of ''}}}'' ('' #if x '' @ ''}}}'' @ ''{{/each}}'') = Some (length '' #if x '') \<and>
   tokenize ''{{/each}}'' = Inr [EACH_END] \<and>
   processExpression ''/bogus'' True [] = Inr [RAW ''/bogus''] \<and>
   tokenize (''a'' @ ''{{{'' @ '' #if x '' @ ''}}}'' @ ''{{/each}}'')
     = Inr [TEXT ''a'', RAW ''#if x'', EACH_END]"
proof -
  have p: "tokenize ''a'' = Inr [TEXT ''a'']" by code_simp
  have e: "''a'' = [] \<or> last ''a'' \<noteq> CHR ''{''" by simp
  have i: "index_of ''}}}'' ('' #if x '' @ ''}}}'' @ ''{{/each}}'') = Some (length '' #if x '')"
    by code_simp
  have q: "tokenize ''{{/each}}'' = Inr [EACH_END]" by code_simp
  have t: "trim '' #if x '' = ''#if x''" by code_simp
  from raw_marker[OF p e i q, of "''/bogus''" "[]"] p i q t show ?thesis by simp
qed

section \<open>Properties of the parser\<close>

fun is_close :: "token \<Rightarrow> bool" where
  "is_close IF_END = True" | "is_close EACH_END = True" | "is_close _ = False"

lemma drop_step: "p < length ts \<Longrightarrow> drop p ts = ts ! p # drop (Suc p) ts"
  by (simp add: Cons_nth_drop_Suc)

text \<open>
  The parser follows the stack discipline: a successful run of \<open>parseTokens\<close> stops
  at the end of the tokens or at a close token and has consumed complete items only; a
  failed run reports the innermost directive that the discipline finds unclosed.
\<close>

lemma parse_match:
  "(case parseTokens tokens position nodes of
      Inr (ns, q) \<Rightarrow> (q \<ge> length tokens \<or> is_close (tokens ! q)) \<and>
         (\<forall>stack. match_blocks stack (drop position tokens) = match_blocks stack (drop q tokens))
    | Inl err \<Rightarrow> (\<exists>k. err = Unclosed_directive (directiveName k) \<and>
         (\<forall>stack. match_blocks stack (drop position tokens) = Unclosed k)))"
  "startPosition < length tokens \<Longrightarrow> token_type (tokens ! startPosition) = startType kind \<Longrightarrow>
   (case parseBlock tokens startPosition kind of
      Inr (n, q) \<Rightarrow>
         (\<forall>stack. match_blocks (kind # stack) (drop (Suc startPosition) tokens) = match_blocks stack (drop q tokens))
    | Inl err \<Rightarrow> (\<exists>k. err = Unclosed_directive (directiveName k) \<and>
         (\<forall>stack. match_blocks (kind # stack) (drop (Suc startPosition) tokens) = Unclosed k)))"
proof (induct tokens position nodes and tokens startPosition kind rule: parseTokens_parseBlock.induct)
  case (1 tokens position nodes)
  note unf = parseTokens.simps[of tokens position nodes]
  show ?case
  proof (cases "position < length tokens")
    case False
    then show ?thesis by (simp add: unf)
  next
    case True
    note d = drop_step[OF True]
    show ?thesis
    proof (cases "tokens ! position")
      case (TEXT v)
      with True "1.hyps"(1)[OF True TEXT] d show ?thesis
        by (auto simp: unf split: sum.splits)
    next
      case (VAR e)
      with True "1.hyps"(2)[OF True VAR] d show ?thesis 
        by (auto simp: unf split: sum.splits)
    next
      case (RAW e)
      with True "1.hyps"(3)[OF True RAW] d show ?thesis
        by (auto simp: unf split: sum.splits)
    next
      case (IF_START c)
      have ty: "token_type (tokens ! position) = startType IF_BLOCK" using IF_START by simp
      note b = "1.hyps"(4)[OF True IF_START True ty]
      show ?thesis
      proof (cases "parseBlock tokens position IF_BLOCK")
        case (Inl err)
        with b True IF_START d show ?thesis by (auto simp: unf)
      next
        case (Inr r)
        obtain n q where r: "r = (n, q)" by (cases r)
        note rest = "1.hyps"(5)[OF True IF_START Inr[unfolded r] refl]
        from b Inr r True IF_START d rest show ?thesis
          by (auto simp: unf split: sum.splits)
      qed
    next
      case IF_END
      with True show ?thesis by (simp add: unf)
    next
      case (EACH_START i)
      have ty: "token_type (tokens ! position) = startType EACH_BLOCK" using EACH_START by simp
      note b = "1.hyps"(6)[OF True EACH_START True ty]
      show ?thesis
      proof (cases "parseBlock tokens position EACH_BLOCK")
        case (Inl err)
        with b True EACH_START d show ?thesis by (auto simp: unf)
      next
        case (Inr r)
        obtain n q where r: "r = (n, q)" by (cases r)
        note rest = "1.hyps"(7)[OF True EACH_START Inr[unfolded r] refl]
        from b Inr r True EACH_START d rest show ?thesis
          by (auto simp: unf split: sum.splits)
      qed
    next
      case EACH_END
      with True show ?thesis by (simp add: unf)
    qed
  qed
next
  case (2 tokens startPosition kind)
  have c1: "\<not> \<not> startPosition < length tokens" using "2.prems" by simp
  have c2: "\<not> token_type (tokens ! startPosition) \<noteq> startType kind" using "2.prems" by simp
  note ih = "2.hyps"[OF c1 c2]
  note unf = parseBlock.simps[of tokens startPosition]
  show ?case
  proof (cases "parseTokens tokens (startPosition + 1) []")
    case (Inl err)
    with ih "2.prems" show ?thesis by (auto simp: unf)
  next
    case (Inr r)
    obtain children position where r: "r = (children, position)" by (cases r)
    from ih Inr r have
      cl: "length tokens \<le> position \<or> is_close (tokens ! position)" and
      eq: "\<And>stack. match_blocks stack (drop (Suc startPosition) tokens) = match_blocks stack (drop position tokens)"
      by auto
    show ?thesis
    proof (cases "length tokens \<le> position")
      case True
      with Inr r "2.prems" eq show ?thesis by (auto simp: unf intro: exI[of _ kind])
    next
      case False
      then have lt: "position < length tokens" by simp
      with cl have close: "is_close (tokens ! position)" by simp
      note d = drop_step[OF lt]
      show ?thesis
      proof (cases "token_type (tokens ! position) = endType kind")
        case True
        with Inr r "2.prems" eq lt d close show ?thesis
          by (cases "tokens ! position"; cases kind) (auto simp: unf)
      next
        case neq: False
        with Inr r "2.prems" eq lt d close show ?thesis
          by (cases "tokens ! position"; cases kind) (auto simp: unf intro: exI[of _ kind])
      qed
    qed
  qed
qed

lemma parse_stray:
  assumes "match_blocks [] tokens = Stray_close"
  shows "parse tokens = Inl Unexpected_tokens_at_end"
proof -
  note pm = parse_match(1)[where tokens=tokens and position=0 and nodes="[]"]
  show ?thesis
  proof (cases "parseTokens tokens 0 []")
    case (Inl err)
    with pm assms show ?thesis by (auto simp: parse_def)
  next
    case (Inr r)
    obtain ns q where r: "r = (ns, q)" by (cases r)
    from pm Inr r have
      cl: "length tokens \<le> q \<or> is_close (tokens ! q)" and
      eq: "match_blocks [] tokens = match_blocks [] (drop q tokens)" by auto
    show ?thesis
    proof (cases "length tokens \<le> q")
      case True with eq assms show ?thesis by simp
    next
      case False
      with Inr r show ?thesis by (simp add: parse_def)
    qed
  qed
qed

text \<open>
  C7, as stated, fails where a close token stands before the open one: in
  \<^verbatim>\<open>{{/each}}{{#if x}}\<close> the if directive has no close token and the token stream
  runs out, yet the top-level parse has stopped at the stray close token and the error is
  "Unexpected tokens at end of template".
\<close>

theorem unclosed_counterexample:
  "tokenize ''{{/each}}{{#if x}}'' = Inr [EACH_END, IF_START ''x''] \<and> IF_END \<notin> set [EACH_END, IF_START ''x''] \<and>
   parse [EACH_END, IF_START ''x''] = Inl Unexpected_tokens_at_end"
proof -
  have "tokenize ''{{/each}}{{#if x}}'' = Inr [EACH_END, IF_START ''x'']" by code_simp
  moreover have "parse [EACH_END, IF_START ''x''] = Inl Unexpected_tokens_at_end" by code_simp
  ultimately show ?thesis by simp
qed

text \<open>
  C7, amended. Scan the tokens from the left with a stack of the open directives. If
  the innermost open directive meets the end of the tokens, or a close token of the other
  kind, the tree builder fails with the "Unclosed" error that names this directive.
\<close>

theorem parse_unclosed:
  assumes "match_blocks [] tokens = Unclosed k"
  shows "parse tokens = Inl (Unclosed_directive (directiveName k))"
proof -
  note pm = parse_match(1)[where tokens=tokens and position=0 and nodes="[]"]
  show ?thesis
  proof (cases "parseTokens tokens 0 []")
    case (Inl err)
    with pm assms show ?thesis by (auto simp: parse_def)
  next
    case (Inr r)
    obtain ns q where r: "r = (ns, q)" by (cases r)
    from pm Inr r have
      cl: "length tokens \<le> q \<or> is_close (tokens ! q)" and
      eq: "match_blocks [] tokens = match_blocks [] (drop q tokens)" by auto
    show ?thesis
    proof (cases "length tokens \<le> q")
      case True with eq assms show ?thesis by simp
    next
      case False
      then have lt: "q < length tokens" by simp
      with cl have "is_close (tokens ! q)" by simp
      with eq assms drop_step[OF lt] show ?thesis by (cases "tokens ! q") auto
    qed
  qed
qed

theorem parse_unclosed_witness:
  "match_blocks [] [IF_START ''x''] = Unclosed IF_BLOCK \<and> parse [IF_START ''x''] = Inl (Unclosed_directive ''if'')"
  using parse_unclosed[of "[IF_START ''x'']" IF_BLOCK] by simp

section \<open>Properties of path expressions\<close>

lemma split_not_Nil: "split c s \<noteq> []"
  by (induction s) (auto split: list.splits)

lemma split_no_separator: "c \<notin> set s \<Longrightarrow> split c s = [s]"
  by (induction s) auto

lemma split_append: "c \<notin> set h \<Longrightarrow> split c (h @ c # p) = h # split c p"
  by (induction h) (auto simp: split_not_Nil split: list.splits)

lemma split_chars:
  "\<forall>seg \<in> set (split c s). \<forall>x \<in> set seg. P x \<Longrightarrow> x \<in> set s \<Longrightarrow> P x \<or> x = c"
proof (induction s)
  case Nil
  then show ?case by simp
next
  case (Cons a s)
  show ?case
  proof (cases "a = c")
    case True
    with Cons show ?thesis by auto
  next
    case False
    obtain y ys where sp: "split c s = y # ys" using split_not_Nil[of c s] by (cases "split c s") auto
    with False Cons.prems(1) have "P a" and "\<forall>seg \<in> set (split c s). \<forall>x \<in> set seg. P x"
      by auto
    with Cons.IH Cons.prems(2) show ?thesis by auto
  qed
qed

lemma is_identifier_chars: "is_identifier s \<Longrightarrow> x \<in> set s \<Longrightarrow> is_id_part x"
  by (cases s) (auto simp: is_identifier_def is_id_part_def list_all_iff)

lemma isValidPath_chars:
  assumes "isValidPath p" and "x \<in> set p"
  shows "is_id_part x \<or> x = CHR ''.''"
proof -
  from assms(1) have "\<forall>seg \<in> set (split CHR ''.'' p). \<forall>x \<in> set seg. is_id_part x"
    by (auto simp: isValidPath_def list_all_iff intro: is_identifier_chars)
  from split_chars[OF this assms(2)] show ?thesis .
qed

lemma isValidPath_not_Nil: "isValidPath p \<Longrightarrow> p \<noteq> []"
  by (auto simp: isValidPath_def is_identifier_def)

lemma id_part_plain:
  "is_id_part x \<or> x = CHR ''.'' \<Longrightarrow>
     \<not> is_space x \<and> x \<noteq> CHR ''@'' \<and> x \<noteq> CHR ''='' \<and> x \<noteq> CHR ''('' \<and> x \<noteq> CHR 0x27 \<and> x \<noteq> CHR 0x22"
  by (auto simp: is_id_part_def is_id_start_def is_digit_def is_space_def)

lemma index_of_absent: "m \<noteq> [] \<Longrightarrow> hd m \<notin> set s \<Longrightarrow> index_of m s = None"
proof (induction s)
  case Nil
  then show ?case by simp
next
  case (Cons a s)
  have "\<not> starts_with m (a # s)"
  proof
    assume "starts_with m (a # s)"
    then have "take (length m) (a # s) = m" by (simp add: starts_with_def)
    with Cons.prems(1) have "hd m = a" by (cases m) auto
    with Cons.prems(2) show False by simp
  qed
  with Cons show ?case by simp
qed

lemma str_includes_absent: "m \<noteq> [] \<Longrightarrow> hd m \<notin> set s \<Longrightarrow> \<not> str_includes m s"
  by (simp add: str_includes_def index_of_absent)

lemma trim_plain:
  assumes "s \<noteq> []" and "\<not> is_space (hd s)" and "\<not> is_space (last s)"
  shows "trim s = s"
proof -
  from assms(1,2) have d: "dropWhile is_space s = s" by (cases s) auto
  from assms(1,3) have "dropWhile is_space (rev s) = rev s" by (cases "rev s") (auto simp: hd_rev)
  with d show ?thesis by (simp add: trim_def)
qed

lemma isValidPath_trim: assumes "isValidPath p" shows "trim p = p"
proof -
  from assms have ne: "p \<noteq> []" by (rule isValidPath_not_Nil)
  then have "hd p \<in> set p" "last p \<in> set p" by simp_all
  with assms have "\<not> is_space (hd p)" "\<not> is_space (last p)"
    using isValidPath_chars id_part_plain by blast+
  with ne show ?thesis by (rule trim_plain)
qed

lemma isValidPath_no_index: "isValidPath p \<Longrightarrow> \<not> str_includes ''@index'' p"
  using isValidPath_chars id_part_plain by (intro str_includes_absent) auto

lemma isValidPath_no_arrow: "isValidPath p \<Longrightarrow> \<not> str_includes ''=>'' p"
  using isValidPath_chars id_part_plain by (intro str_includes_absent) auto

lemma isValidPath_hd: "isValidPath p \<Longrightarrow> is_id_start (hd p)"
proof (cases p)
  case Nil
  assume "isValidPath p"
  with Nil show ?thesis by (simp add: isValidPath_def is_identifier_def)
next
  case (Cons a s)
  assume v: "isValidPath p"
  obtain y ys where sp: "split CHR ''.'' s = y # ys"
    using split_not_Nil[of "CHR ''.''" s] by (cases "split CHR ''.'' s") auto
  show ?thesis
  proof (cases "a = CHR ''.''")
    case True
    with v Cons show ?thesis by (simp add: isValidPath_def is_identifier_def)
  next
    case False
    with v Cons sp show ?thesis by (simp add: isValidPath_def is_identifier_def)
  qed
qed

lemma isValidPath_not_literal:
  assumes "isValidPath p"
  shows "\<not> is_decimal_literal p" and "\<not> is_string_literal p"
proof -
  from assms have ne: "p \<noteq> []" by (rule isValidPath_not_Nil)
  obtain y ys where sp: "split CHR ''.'' p = y # ys"
    using split_not_Nil[of "CHR ''.''" p] by (cases "split CHR ''.'' p") auto
  with assms have "is_identifier y" by (simp add: isValidPath_def)
  have "hd p \<in> set p" using ne by simp
  show "\<not> is_string_literal p"
    using isValidPath_chars[OF assms \<open>hd p \<in> set p\<close>] id_part_plain[of "hd p"]
    by (auto simp: is_string_literal_def)
  show "\<not> is_decimal_literal p"
    using isValidPath_hd[OF assms] ne
    by (cases p) (auto simp: is_decimal_literal_def is_id_start_def is_digit_def)
qed

lemma isValidPath_append:
  assumes "is_identifier b" and "isValidPath p"
  shows "isValidPath (b @ ''.'' @ p)" and "split CHR ''.'' (b @ ''.'' @ p) = b # split CHR ''.'' p"
proof -
  have "CHR ''.'' \<notin> set b"
    using is_identifier_chars[OF assms(1)] id_part_plain
    by (auto simp: is_id_part_def is_id_start_def is_digit_def)
  then show sp: "split CHR ''.'' (b @ ''.'' @ p) = b # split CHR ''.'' p"
    using split_append[of "CHR ''.''" b p] by simp
  with assms show "isValidPath (b @ ''.'' @ p)" by (simp add: isValidPath_def)
qed

lemma prefix_separator:
  "c \<notin> set b \<Longrightarrow> c \<notin> set w \<Longrightarrow> take (Suc (length w)) (b @ c # p) = w @ [c] \<Longrightarrow> b = w"
proof (induction b arbitrary: w)
  case Nil
  then show ?case by (cases w) auto
next
  case (Cons a b)
  then show ?case by (cases w) auto
qed

lemma starts_with_this:
  assumes "CHR ''.'' \<notin> set b" and "starts_with ''this.'' (b @ ''.'' @ p)"
  shows "b = ''this''"
proof -
  have "take (Suc (length ''this'')) (b @ CHR ''.'' # p) = ''this'' @ [CHR ''.'']"
    using assms(2) by (simp add: starts_with_def)
  from prefix_separator[OF assms(1) _ this] show ?thesis by simp
qed

lemma parse_member:
  assumes "is_identifier b" and "b \<notin> set reserved_words" and "isValidPath p"
  shows "parse_expression (b @ ''.'' @ p) = Some (Member b (split CHR ''.'' p))"
  using isValidPath_append[OF assms(1,3)] isValidPath_not_literal[of "b @ ''.'' @ p"] assms(2)
  by (simp add: parse_expression_def)

definition item_binding :: "loop_context option \<Rightarrow> string" where
  "item_binding loopContext = (case loopContext of Some lc \<Rightarrow> itemName lc | None \<Rightarrow> ''ctx'')"

lemma compile_member:
  assumes "is_identifier (item_binding lc)" and "item_binding lc \<notin> set reserved_words"
    and "isValidPath p"
  shows "compileComplexExpression (item_binding lc @ ''.'' @ p) lc = Inr (item_binding lc @ ''.'' @ p)"
proof -
  let ?t = "item_binding lc @ ''.'' @ p"
  have v: "isValidPath ?t" using isValidPath_append(1)[OF assms(1,3)] .
  have "?t \<noteq> ''this''" using isValidPath_append(2)[OF assms(1,3)] split_not_Nil[of "CHR ''.''" p]
    by (auto simp: split_no_separator)
  moreover have "\<not> starts_with ''this.'' ?t"
  proof
    assume st: "starts_with ''this.'' ?t"
    have "CHR ''.'' \<notin> set (item_binding lc)"
      using is_identifier_chars[OF assms(1)]
      by (auto simp: is_id_part_def is_id_start_def is_digit_def)
    from starts_with_this[OF this st] assms(2) show False by (simp add: reserved_words_def)
  qed
  ultimately show ?thesis
    using isValidPath_no_index[OF v] isValidPath_no_arrow[OF v] parse_member[OF assms]
    by (auto simp: compileComplexExpression_def Let_def split: option.splits)
qed

section \<open>Properties of the safe lookup\<close>

lemma get_prop_object_no_throw: "is_object v \<Longrightarrow> get_prop v key \<noteq> Throw err"
  by (cases v) (auto split: option.splits)

lemma deepGet_loop_no_throw: "deepGet_loop v keys \<noteq> Throw err"
proof (induction keys arbitrary: v)
  case Nil
  show ?case by simp
next
  case (Cons key keys)
  show ?case
  proof (cases "is_object v")
    case False
    then show ?thesis by simp
  next
    case True
    with get_prop_object_no_throw[OF True, of key err] Cons.IH show ?thesis
      by (cases "get_prop v key") auto
  qed
qed

lemma deepGet_no_throw: "deepGet obj path \<noteq> Throw err"
  by (simp add: deepGet_def deepGet_loop_no_throw)

text \<open>
  \<open>missing_intermediate v keys\<close>: on the walk from \<open>v\<close> along \<open>keys\<close>, a value
  that is not an object (so also \<^verbatim>\<open>undefined\<close> for a missing property, and
  \<^verbatim>\<open>null\<close>) is reached while a key is still to be read.
\<close>

fun missing_intermediate :: "jsvalue \<Rightarrow> string list \<Rightarrow> bool" where
  "missing_intermediate v [] = False"
| "missing_intermediate v (key # keys) =
     (\<not> is_object v \<or>
      (case get_prop v key of Ok w \<Rightarrow> missing_intermediate w keys | _ \<Rightarrow> False))"

lemma deepGet_loop_missing: "missing_intermediate v keys \<Longrightarrow> deepGet_loop v keys = Ok JUndefined"
proof (induction keys arbitrary: v)
  case Nil
  then show ?case by simp
next
  case (Cons key keys)
  show ?case
  proof (cases "is_object v")
    case False
    then show ?thesis by simp
  next
    case True
    with Cons.prems obtain w where "get_prop v key = Ok w" "missing_intermediate w keys"
      by (auto split: result.splits)
    with True Cons.IH show ?thesis by simp
  qed
qed

lemma deepGet_missing:
  assumes "path \<noteq> []" and "missing_intermediate obj (split CHR ''.'' path)"
  shows "deepGet obj path = Ok JUndefined"
  using assms by (simp add: deepGet_def deepGet_loop_missing)

text \<open>
  C4, as stated, fails for a path that matches the identifier pattern and has one of
  the method suffixes: \<^verbatim>\<open>ctx.a.length\<close> is classified as a complex expression, so
  the generator emits its text as it stands and not a call of the safe lookup. On the
  context \<^verbatim>\<open>{}\<close> the walk along \<^verbatim>\<open>ctx.a.length\<close> meets a missing value at once,
  and the artifact raises instead of rendering the empty string.
\<close>

theorem method_suffix_path_raises:
  "isValidPath ''ctx.a.length'' \<and>
   missing_intermediate (JObj []) (split CHR ''.'' ''ctx.a.length'') \<and>
   isComplexExpression ''ctx.a.length'' \<and>
   generateNodeCode (\<lambda>k. ''k3j2h1abc'') (VariableN ''ctx.a.length'') None 0
     = Inr (PushEscape (Source ''ctx.a.length''), 0) \<and>
   render (\<lambda>k. ''k3j2h1abc'') 0 ''{{ctx.a.length}}'' (JObj []) = Inr (Throw TypeError)"
  by code_simp

text \<open>
  C4, amended. An escaped variable whose expression matches the identifier pattern and
  is not classified as complex (has none of the method suffixes) is compiled to
  \<^verbatim>\<open>output.push(__escape(__get(ctx, path)))\<close>; the expressions \<^verbatim>\<open>this\<close> and
  \<^verbatim>\<open>this.<path>\<close> follow the rule of \<^verbatim>\<open>this\<close> and are left aside here. The lookup
  never raises; and where the walk along the path meets a missing value or one that is
  not an object (an array counts as an object) before the last key, the statement
  pushes the empty string.
\<close>

theorem path_variable_missing:
  assumes "isValidPath path" and "path \<noteq> ''this''" and "\<not> starts_with ''this.'' path"
    and "\<not> isComplexExpression path"
  shows "generateNodeCode rnd (VariableN path) loopContext n = Inr (PushEscape (Get_ctx path), n) \<and>
    deepGet obj anyPath \<noteq> Throw err \<and>
    (env st ''ctx'' = Some ctx \<and> missing_intermediate ctx (split CHR ''.'' path) \<longrightarrow>
       exec fuel (PushEscape (Get_ctx path)) st = Ok (push [] st))"
proof -
  have "generateAccessCode path loopContext = Inr (Get_ctx path)"
    using assms by (simp add: generateAccessCode_def)
  then have "generateNodeCode rnd (VariableN path) loopContext n = Inr (PushEscape (Get_ctx path), n)"
    using isValidPath_trim[OF assms(1)] isValidPath_not_Nil[OF assms(1)]
    by (simp add: generateVariableCode_def)
  moreover have "exec fuel (PushEscape (Get_ctx path)) st = Ok (push [] st)"
    if "env st ''ctx'' = Some ctx" "missing_intermediate ctx (split CHR ''.'' path)"
    using that deepGet_missing[OF isValidPath_not_Nil[OF assms(1)] that(2)]
    by (simp add: escapeHtml_def)
  ultimately show ?thesis using deepGet_no_throw by blast
qed

theorem path_variable_missing_witness:
  "isValidPath ''a.b.c'' \<and> ''a.b.c'' \<noteq> ''this'' \<and> \<not> starts_with ''this.'' ''a.b.c'' \<and>
   \<not> isComplexExpression ''a.b.c'' \<and>
   generateNodeCode (\<lambda>k. ''k3j2h1abc'') (VariableN ''a.b.c'') None 0
     = Inr (PushEscape (Get_ctx ''a.b.c''), 0) \<and>
   missing_intermediate (JObj []) (split CHR ''.'' ''a.b.c'') \<and>
   exec 0 (PushEscape (Get_ctx ''a.b.c'')) \<lparr>env = [''ctx'' \<mapsto> JObj []], out = []\<rparr>
     = Ok \<lparr>env = [''ctx'' \<mapsto> JObj []], out = [[]]\<rparr> \<and>
   missing_intermediate (JObj [(''a'', JArr [JNum 1])]) (split CHR ''.'' ''a.b.c'') \<and>
   exec 0 (PushEscape (Get_ctx ''a.b.c''))
       \<lparr>env = [''ctx'' \<mapsto> JObj [(''a'', JArr [JNum 1])]], out = []\<rparr>
     = Ok \<lparr>env = [''ctx'' \<mapsto> JObj [(''a'', JArr [JNum 1])]], out = [[]]\<rparr> \<and>
   render (\<lambda>k. ''k3j2h1abc'') 0 ''{{a.b.c}}'' (JObj []) = Inr (Ok []) \<and>
   render (\<lambda>k. ''k3j2h1abc'') 0 ''{{a.b.c}}'' (JObj [(''a'', JArr [JNum 1])]) = Inr (Ok []) \<and>
   render (\<lambda>k. ''k3j2h1abc'') 0 ''{{a.b.c}}'' (JObj [(''a'', JNum 5)]) = Inr (Ok [])"
proof -
  have h: "isValidPath ''a.b.c''" "''a.b.c'' \<noteq> ''this''" "\<not> starts_with ''this.'' ''a.b.c''"
    "\<not> isComplexExpression ''a.b.c''"
    by code_simp+
  have m: "missing_intermediate (JObj []) (split CHR ''.'' ''a.b.c'')"
    "missing_intermediate (JObj [(''a'', JArr [JNum 1])]) (split CHR ''.'' ''a.b.c'')"
    by code_simp+
  have r: "render (\<lambda>k. ''k3j2h1abc'') 0 ''{{a.b.c}}'' (JObj []) = Inr (Ok [])"
    "render (\<lambda>k. ''k3j2h1abc'') 0 ''{{a.b.c}}'' (JObj [(''a'', JArr [JNum 1])]) = Inr (Ok [])"
    "render (\<lambda>k. ''k3j2h1abc'') 0 ''{{a.b.c}}'' (JObj [(''a'', JNum 5)]) = Inr (Ok [])"
    by code_simp+
  from path_variable_missing[OF h, of "\<lambda>k. ''k3j2h1abc''" None 0 JUndefined "[]" TypeError
      "\<lparr>env = [''ctx'' \<mapsto> JObj []], out = []\<rparr>" "JObj []" 0] m(1)
  have c1: "generateNodeCode (\<lambda>k. ''k3j2h1abc'') (VariableN ''a.b.c'') None 0
        = Inr (PushEscape (Get_ctx ''a.b.c''), 0)"
      "exec 0 (PushEscape (Get_ctx ''a.b.c'')) \<lparr>env = [''ctx'' \<mapsto> JObj []], out = []\<rparr>
        = Ok \<lparr>env = [''ctx'' \<mapsto> JObj []], out = [[]]\<rparr>"
    by (simp_all add: push_def)
  from path_variable_missing[OF h, of "\<lambda>k. ''k3j2h1abc''" None 0 JUndefined "[]" TypeError
      "\<lparr>env = [''ctx'' \<mapsto> JObj [(''a'', JArr [JNum 1])]], out = []\<rparr>"
      "JObj [(''a'', JArr [JNum 1])]" 0] m(2)
  have c2: "exec 0 (PushEscape (Get_ctx ''a.b.c''))
       \<lparr>env = [''ctx'' \<mapsto> JObj [(''a'', JArr [JNum 1])]], out = []\<rparr>
     = Ok \<lparr>env = [''ctx'' \<mapsto> JObj [(''a'', JArr [JNum 1])]], out = [[]]\<rparr>"
    by (simp add: push_def)
  from h m r c1 c2 show ?thesis by (intro conjI)
qed

section \<open>Properties of \<open>this\<close> paths\<close>

lemma get_path_append:
  "get_path v (ks @ rest) = bind (get_path v ks) (\<lambda>w. get_path w rest)"
proof (induction ks arbitrary: v)
  case Nil
  show ?case by simp
next
  case (Cons k ks)
  then show ?case by (cases "get_prop v k") auto
qed

lemma get_path_null:
  assumes "i < length keys" and "get_path v (take i keys) = Ok w" and "w = JUndefined \<or> w = JNull"
  shows "get_path v keys = Throw TypeError"
proof -
  from assms(1) obtain k rest where d: "drop i keys = k # rest"
    by (cases "drop i keys") auto
  have "get_path v keys = get_path v (take i keys @ drop i keys)" by simp
  also have "\<dots> = get_path w (k # rest)" using assms(2) d by (simp only: get_path_append bind.simps)
  also have "\<dots> = Throw TypeError" using assms(3) by auto
  finally show ?thesis .
qed

lemma this_prefix_plain:
  assumes "isValidPath path"
  shows "trim (''this.'' @ path) = ''this.'' @ path" and "match_comparison (''this.'' @ path) = None"
proof -
  have "is_identifier ''this''" by (simp add: is_identifier_def is_id_start_def is_id_part_def)
  from isValidPath_append(1)[OF this assms] have "isValidPath (''this.'' @ path)" by simp
  then show "trim (''this.'' @ path) = ''this.'' @ path" by (rule isValidPath_trim)
  show "match_comparison (''this.'' @ path) = None" by (simp add: match_comparison_def)
qed

text \<open>
  C1. A \<^verbatim>\<open>this.<path>\<close> expression should reach the data through the safe lookup,
  as a plain path does and as a \<^verbatim>\<open>this.<path>\<close> condition at top level does, so
  that a missing value on the way gives "not found". The generator instead rewrites
  the expression of a variable, a raw variable or a comparison operand to a member
  access on the item binding (on \<^verbatim>\<open>ctx\<close> at top level) and emits that text with no
  guard. Inside a loop over \<^verbatim>\<open>[{}]\<close> the raw variable \<^verbatim>\<open>this.profile.name\<close>
  becomes \<^verbatim>\<open>item.profile.name\<close>, and the artifact raises on the missing
  \<^verbatim>\<open>profile\<close>; so do the escaped variable, the top-level variable \<^verbatim>\<open>this.a.b\<close> and
  the operand of a comparison on the context \<^verbatim>\<open>{}\<close>, where the plain path
  \<^verbatim>\<open>a.b\<close> and the condition \<^verbatim>\<open>this.a.b\<close> on its own render the empty string.
\<close>

theorem this_path_raises:
  "render (\<lambda>k. ''k3j2h1abc'') 2 ''{{#each users}}{{{this.profile.name}}}{{/each}}''
      (JObj [(''users'', JArr [JObj []])]) = Inr (Throw TypeError) \<and>
   render (\<lambda>k. ''k3j2h1abc'') 2 ''{{#each users}}{{this.profile.name}}{{/each}}''
      (JObj [(''users'', JArr [JObj []])]) = Inr (Throw TypeError) \<and>
   render (\<lambda>k. ''k3j2h1abc'') 0 ''{{this.a.b}}'' (JObj []) = Inr (Throw TypeError) \<and>
   render (\<lambda>k. ''k3j2h1abc'') 0 ''{{#if (eq this.a.b 1)}}x{{/if}}'' (JObj []) = Inr (Throw TypeError) \<and>
   render (\<lambda>k. ''k3j2h1abc'') 0 ''{{#if this.a.b}}x{{/if}}'' (JObj []) = Inr (Ok []) \<and>
   render (\<lambda>k. ''k3j2h1abc'') 0 ''{{a.b}}'' (JObj []) = Inr (Ok [])"
  by code_simp

text \<open>
  The same holds of every dotted identifier path: \<^verbatim>\<open>this.<path>\<close> is rewritten to the
  item binding of the innermost loop (to \<^verbatim>\<open>ctx\<close> at top level) followed by the path,
  and emitted as a plain member access. Its value is the walk along the path from the
  binding's value without any guard: it raises a TypeError as soon as a value on the way
  is \<^verbatim>\<open>undefined\<close> or \<^verbatim>\<open>null\<close> while a key is still to be read. Only as a
  condition on its own, at top level and when not classified as complex, is
  \<^verbatim>\<open>this.<path>\<close> resolved through the safe lookup; inside a loop the condition is the
  member access again.
\<close>

lemma this_path_member_access:
  assumes "isValidPath path"
    and "is_identifier (item_binding loopContext)"
    and "item_binding loopContext \<notin> set reserved_words"
  shows "generateAccessCode (''this.'' @ path) loopContext
           = Inr (Source (item_binding loopContext @ ''.'' @ path)) \<and>
    eval_code e (Source (item_binding loopContext @ ''.'' @ path))
       = (case e (item_binding loopContext) of
            None \<Rightarrow> Unmodelled
          | Some v \<Rightarrow> get_path v (split CHR ''.'' path)) \<and>
    (i < length (split CHR ''.'' path) \<and> e (item_binding loopContext) = Some v \<and>
     (get_path v (take i (split CHR ''.'' path)) = Ok JUndefined \<or>
      get_path v (take i (split CHR ''.'' path)) = Ok JNull) \<longrightarrow>
       eval_code e (Source (item_binding loopContext @ ''.'' @ path)) = Throw TypeError) \<and>
    (\<not> isComplexExpression (''this.'' @ path) \<longrightarrow>
       generateConditionCode (''this.'' @ path) loopContext
         = Inr (Truthy (case loopContext of
                          Some lc \<Rightarrow> Source (itemName lc @ ''.'' @ path)
                        | None \<Rightarrow> Get_ctx path)))"
proof -
  note c = compile_member[OF assms(2,3,1)]
  have a: "generateAccessCode (''this.'' @ path) loopContext
           = Inr (Source (item_binding loopContext @ ''.'' @ path))"
    using c by (cases loopContext) (simp_all add: generateAccessCode_def starts_with_def item_binding_def)
  have ev: "eval_code e (Source (item_binding loopContext @ ''.'' @ path))
       = (case e (item_binding loopContext) of
            None \<Rightarrow> Unmodelled
          | Some v \<Rightarrow> get_path v (split CHR ''.'' path))"
    using parse_member[OF assms(2,3,1)] by simp
  have th: "eval_code e (Source (item_binding loopContext @ ''.'' @ path)) = Throw TypeError"
    if "i < length (split CHR ''.'' path)" "e (item_binding loopContext) = Some v"
      "get_path v (take i (split CHR ''.'' path)) = Ok JUndefined \<or>
       get_path v (take i (split CHR ''.'' path)) = Ok JNull"
    using that ev get_path_null[of i "split CHR ''.'' path" v] by auto
  have cond: "generateConditionCode (''this.'' @ path) loopContext
         = Inr (Truthy (case loopContext of
                          Some lc \<Rightarrow> Source (itemName lc @ ''.'' @ path)
                        | None \<Rightarrow> Get_ctx path))"
    if "\<not> isComplexExpression (''this.'' @ path)"
    using that this_prefix_plain[OF assms(1)]
    by (cases loopContext) (simp_all add: generateConditionCode_def starts_with_def)
  from a ev th cond show ?thesis by blast
qed

lemma this_path_member_access_example:
  "isValidPath ''profile.name'' \<and>
   is_identifier (item_binding (Some (LoopContext ''item_k3j2h1abc'' ''index_k3j2h1abc'' None))) \<and>
   item_binding (Some (LoopContext ''item_k3j2h1abc'' ''index_k3j2h1abc'' None)) \<notin> set reserved_words \<and>
   generateAccessCode ''this.profile.name'' (Some (LoopContext ''item_k3j2h1abc'' ''index_k3j2h1abc'' None))
     = Inr (Source ''item_k3j2h1abc.profile.name'') \<and>
   (1::nat) < length (split CHR ''.'' ''profile.name'') \<and>
   get_path (JObj []) (take 1 (split CHR ''.'' ''profile.name'')) = Ok JUndefined \<and>
   eval_code [''item_k3j2h1abc'' \<mapsto> JObj []] (Source ''item_k3j2h1abc.profile.name'') = Throw TypeError \<and>
   \<not> isComplexExpression ''this.profile.name'' \<and>
   generateConditionCode ''this.profile.name'' (Some (LoopContext ''item_k3j2h1abc'' ''index_k3j2h1abc'' None))
     = Inr (Truthy (Source ''item_k3j2h1abc.profile.name''))"
proof -
  let ?lc = "Some (LoopContext ''item_k3j2h1abc'' ''index_k3j2h1abc'' None)"
  have h: "isValidPath ''profile.name''" "is_identifier (item_binding ?lc)"
    "item_binding ?lc \<notin> set reserved_words"
    by code_simp+
  have b: "item_binding ?lc = ''item_k3j2h1abc''" by (simp add: item_binding_def)
  have f: "split CHR ''.'' ''profile.name'' = [''profile'', ''name'']"
    "\<not> isComplexExpression ''this.profile.name''"
    "get_path (JObj []) (take 1 (split CHR ''.'' ''profile.name'')) = Ok JUndefined"
    by code_simp+
  have e: "[''item_k3j2h1abc'' \<mapsto> JObj []] ''item_k3j2h1abc'' = Some (JObj [])" by simp
  note t = this_path_member_access[OF h, of "[''item_k3j2h1abc'' \<mapsto> JObj []]" 1 "JObj []",
      unfolded b append.simps]
  have l: "(1::nat) < length (split CHR ''.'' ''profile.name'')" by (simp add: f(1))
  from t have c1: "generateAccessCode ''this.profile.name'' ?lc
     = Inr (Source ''item_k3j2h1abc.profile.name'')" by blast
  from t l e f(3) have c3: "eval_code [''item_k3j2h1abc'' \<mapsto> JObj []]
     (Source ''item_k3j2h1abc.profile.name'') = Throw TypeError" by blast
  from t f(2) have c4: "generateConditionCode ''this.profile.name'' ?lc
     = Inr (Truthy (Source ''item_k3j2h1abc.profile.name''))" by simp
  from h l f(2,3) c1 c3 c4 show ?thesis by blast
qed

section \<open>Properties of conditions\<close>








section \<open>Properties of loops\<close>

text \<open>
  C6. When the items expression of an each block evaluates to a value that is not an
  array, the block's statement only stores the value: it pushes nothing, does not raise
  and needs no fuel.
\<close>

theorem each_non_array:
  assumes "generateNodeCode rnd (EachN items children) loopContext n = Inr (s, n')"
    and "generateAccessCode items loopContext = Inr itemsCode"
    and "eval_code (env st) itemsCode = Ok v"
    and "\<not> is_array v"
  shows "exec fuel s st = Ok (assign (''items_'' @ rnd n) v st) \<and>
         out (assign (''items_'' @ rnd n) v st) = out st"
proof -
  from assms(1,2) obtain body where "s = EachS (rnd n) itemsCode body"
    by (auto split: sum.splits)
  with assms(3,4) show ?thesis by (simp add: assign_def)
qed

theorem each_non_array_witness:
  "generateNodeCode (\<lambda>k. ''k3j2h1abc'') (EachN ''items'' [TextN ''x'']) None 0
      = Inr (EachS ''k3j2h1abc'' (Get_ctx ''items'') [PushText ''x''], 1) \<and>
   generateAccessCode ''items'' None = Inr (Get_ctx ''items'') \<and>
   eval_code (env \<lparr>env = [''ctx'' \<mapsto> JObj [(''items'', JStr ''abc'')]], out = [''-'']\<rparr>)
      (Get_ctx ''items'') = Ok (JStr ''abc'') \<and>
   \<not> is_array (JStr ''abc'') \<and>
   out (assign (''items_'' @ ''k3j2h1abc'') (JStr ''abc'')
        \<lparr>env = [''ctx'' \<mapsto> JObj [(''items'', JStr ''abc'')]], out = [''-'']\<rparr>) = [''-''] \<and>
   exec 0 (EachS ''k3j2h1abc'' (Get_ctx ''items'') [PushText ''x''])
      \<lparr>env = [''ctx'' \<mapsto> JObj [(''items'', JStr ''abc'')]], out = [''-'']\<rparr>
    = Ok (assign (''items_'' @ ''k3j2h1abc'') (JStr ''abc'')
        \<lparr>env = [''ctx'' \<mapsto> JObj [(''items'', JStr ''abc'')]], out = [''-'']\<rparr>) \<and>
   render (\<lambda>k. ''k3j2h1abc'') 0 ''{{#each items}}x{{/each}}'' (JObj [(''items'', JStr ''abc'')])
    = Inr (Ok [])"
proof -
  let ?st = "\<lparr>env = [''ctx'' \<mapsto> JObj [(''items'', JStr ''abc'')]], out = [''-'']\<rparr>"
  have h1: "generateNodeCode (\<lambda>k. ''k3j2h1abc'') (EachN ''items'' [TextN ''x'']) None 0
      = Inr (EachS ''k3j2h1abc'' (Get_ctx ''items'') [PushText ''x''], 1)" by code_simp
  have h2: "generateAccessCode ''items'' None = Inr (Get_ctx ''items'')" by code_simp
  have h3: "eval_code (env ?st) (Get_ctx ''items'') = Ok (JStr ''abc'')" by code_simp
  have h4: "\<not> is_array (JStr ''abc'')" by simp
  have r: "render (\<lambda>k. ''k3j2h1abc'') 0 ''{{#each items}}x{{/each}}'' (JObj [(''items'', JStr ''abc'')])
    = Inr (Ok [])" by code_simp
  from each_non_array[OF h1 h2 h3 h4, of 0] h1 h2 h3 h4 r show ?thesis by simp
qed

subsection \<open>Loops over arrays\<close>

lemma bind_not_OutOfFuel:
  "bind r f \<noteq> OutOfFuel \<Longrightarrow> r \<noteq> OutOfFuel"
  by (cases r) auto

lemma fuel_mono_aux:
  "exec fuel s st \<noteq> OutOfFuel \<longrightarrow> exec (fuel + k) s st = exec fuel s st"
  "exec_list fuel ss st \<noteq> OutOfFuel \<longrightarrow> exec_list (fuel + k) ss st = exec_list fuel ss st"
  "for_loop fuel loopId body st \<noteq> OutOfFuel \<longrightarrow>
     for_loop (fuel + k) loopId body st = for_loop fuel loopId body st"
proof (induction fuel s st and fuel ss st and fuel loopId body st
    rule: exec_exec_list_for_loop.induct)
  case (1 fuel v st)
  show ?case by simp
next
  case (2 fuel c st)
  show ?case by simp
next
  case (3 fuel c st)
  show ?case by simp
next
  case (4 fuel b body st)
  show ?case
  proof (cases "eval_condition (env st) b")
    case (Ok t)
    with 4[OF Ok] show ?thesis by (cases t) auto
  qed auto
next
  case (5 fuel loopId c body st)
  show ?case
  proof (cases "eval_code (env st) c")
    case (Ok v)
    with 5[OF Ok] show ?thesis by (cases "is_array v") auto
  qed auto
next
  case (6 fuel st)
  show ?case by simp
next
  case (7 fuel s ss st)
  show ?case
  proof (cases "exec fuel s st")
    case (Ok x)
    with 7(1) 7(2)[OF Ok] show ?thesis by auto
  qed (use 7(1) in auto)
next
  case (8 loopId body st)
  show ?case by simp
next
  case (9 fuel loopId body st)
  show ?case
  proof (cases "env st (''index_'' @ loopId)")
    case None
    then show ?thesis by simp
  next
    case i: (Some i)
    show ?thesis
    proof (cases "env st (''items_'' @ loopId)")
      case None
      with i show ?thesis by simp
    next
      case a: (Some items)
      show ?thesis
      proof (cases "get_prop items ''length''")
        case len: (Ok len)
        show ?thesis
        proof (cases "less_than i len")
          case t: (Ok t)
          show ?thesis
          proof (cases t)
            case False
            with i a len t show ?thesis by simp
          next
            case True
            show ?thesis
            proof (cases "get_index items i")
              case item: (Ok item)
              note ih1 = 9(1)[OF refl i a len t True item]
              show ?thesis
              proof (cases "exec_list fuel body (assign (''item_'' @ loopId) item st)")
                case st': (Ok st')
                with ih1 have e: "exec_list (fuel + k) body (assign (''item_'' @ loopId) item st) = Ok st'"
                  by simp
                show ?thesis
                proof (cases "env st' (''index_'' @ loopId)")
                  case None
                  with i a len t True item st' e show ?thesis by simp
                next
                  case k: (Some kv)
                  show ?thesis
                  proof (cases kv)
                    case (JNum x4)
                    note ih2 = 9(2)[OF refl i a len t True item st' k JNum]
                    with i a len t True item st' e k JNum show ?thesis by simp
                  qed (use i a len t True item st' e k in auto)
                qed
              qed (use i a len t True item ih1 in auto)
            qed (use i a len t True in auto)
          qed
        qed (use i a len in auto)
      qed (use i a in auto)
    qed
  qed
qed

lemma fuel_mono:
  "exec_list fuel ss st = Ok st' \<Longrightarrow> exec_list (fuel + k) ss st = Ok st'"
  using fuel_mono_aux(2)[of fuel ss st k] by simp


fun loop_ids :: "stmt \<Rightarrow> string list"
  and loop_ids_list :: "stmt list \<Rightarrow> string list" where
  "loop_ids (PushText v) = []"
| "loop_ids (PushEscape c) = []"
| "loop_ids (PushString c) = []"
| "loop_ids (IfS b body) = loop_ids_list body"
| "loop_ids (EachS loopId c body) = loopId # loop_ids_list body"
| "loop_ids_list [] = []"
| "loop_ids_list (s # ss) = loop_ids s @ loop_ids_list ss"

definition loop_vars :: "string \<Rightarrow> string set" where
  "loop_vars loopId = {''items_'' @ loopId, ''index_'' @ loopId, ''item_'' @ loopId}"

lemma bind_Ok: "bind r f = Ok y \<Longrightarrow> \<exists>x. r = Ok x \<and> f x = Ok y"
  by (cases r) auto

lemma frame:
  "exec fuel s st = Ok st' \<Longrightarrow> \<forall>d \<in> set (loop_ids s). x \<notin> loop_vars d \<Longrightarrow> env st' x = env st x"
  "exec_list fuel ss st = Ok st' \<Longrightarrow> \<forall>d \<in> set (loop_ids_list ss). x \<notin> loop_vars d \<Longrightarrow>
     env st' x = env st x"
  "for_loop fuel loopId body st = Ok st' \<Longrightarrow> x \<notin> loop_vars loopId \<Longrightarrow>
     \<forall>d \<in> set (loop_ids_list body). x \<notin> loop_vars d \<Longrightarrow> env st' x = env st x"
proof (induction fuel s st and fuel ss st and fuel loopId body st arbitrary: st' and st' and st'
    rule: exec_exec_list_for_loop.induct)
  case (1 fuel v st)
  then show ?case by (auto simp: push_def)
next
  case (2 fuel c st)
  then show ?case by (auto simp: push_def dest!: bind_Ok)
next
  case (3 fuel c st)
  then show ?case by (auto simp: push_def dest!: bind_Ok)
next
  case (4 fuel b body st)
  then show ?case
    by (cases "eval_condition (env st) b") (auto split: if_splits)
next
  case (5 fuel loopId c body st)
  show ?case
  proof (cases "eval_code (env st) c")
    case (Ok v)
    show ?thesis
    proof (cases "is_array v")
      case True
      with Ok 5(2) have f: "for_loop fuel loopId body
         (assign (''index_'' @ loopId) (JNum 0) (assign (''items_'' @ loopId) v st)) = Ok st'" by simp
      from 5(3) have "x \<notin> loop_vars loopId" "\<forall>d \<in> set (loop_ids_list body). x \<notin> loop_vars d"
        by auto
      from 5(1)[OF Ok True f this] \<open>x \<notin> loop_vars loopId\<close> show ?thesis
        by (auto simp: assign_def loop_vars_def)
    next
      case False
      with Ok 5(2,3) show ?thesis by (auto simp: assign_def loop_vars_def)
    qed
  qed (use 5(2) in auto)
next
  case (6 fuel st)
  then show ?case by simp
next
  case (7 fuel s ss st)
  show ?case
  proof (cases "exec fuel s st")
    case (Ok st1)
    with 7(3) have r: "exec_list fuel ss st1 = Ok st'" by simp
    from 7(4) have "\<forall>d \<in> set (loop_ids s). x \<notin> loop_vars d"
      "\<forall>d \<in> set (loop_ids_list ss). x \<notin> loop_vars d" by auto
    with 7(1)[OF Ok] 7(2)[OF Ok r] show ?thesis by simp
  qed (use 7(3) in auto)
next
  case (8 loopId body st)
  then show ?case by simp
next
  case (9 fuel loopId body st)
  show ?case
  proof (cases "env st (''index_'' @ loopId)")
    case None
    with 9(3) show ?thesis by simp
  next
    case i: (Some i)
    show ?thesis
    proof (cases "env st (''items_'' @ loopId)")
      case None
      with i 9(3) show ?thesis by simp
    next
      case a: (Some items)
      show ?thesis
      proof (cases "get_prop items ''length''")
        case len: (Ok len)
        show ?thesis
        proof (cases "less_than i len")
          case t: (Ok t)
          show ?thesis
          proof (cases t)
            case False
            with i a len t 9(3) show ?thesis by simp
          next
            case True
            show ?thesis
            proof (cases "get_index items i")
              case item: (Ok item)
              show ?thesis
              proof (cases "exec_list fuel body (assign (''item_'' @ loopId) item st)")
                case st1: (Ok st1)
                note ih1 = 9(1)[OF refl i a len t True item st1 9(5)]
                show ?thesis
                proof (cases "env st1 (''index_'' @ loopId)")
                  case None
                  with i a len t True item st1 9(3) show ?thesis by simp
                next
                  case k: (Some kv)
                  show ?thesis
                  proof (cases kv)
                    case (JNum x4)
                    with i a len t True item st1 k 9(3)
                    have f: "for_loop fuel loopId body
                       (assign (''index_'' @ loopId) (JNum (x4 + 1)) st1) = Ok st'" by simp
                    note ih2 = 9(2)[OF refl i a len t True item st1 k JNum f 9(4,5)]
                    with ih1 9(4) show ?thesis by (auto simp: assign_def loop_vars_def)
                  qed (use i a len t True item st1 k 9(3) in auto)
                qed
              qed (use i a len t True item 9(3) in auto)
            qed (use i a len t True 9(3) in auto)
          qed
        qed (use i a len 9(3) in auto)
      qed (use i a 9(3) in auto)
    qed
  qed
qed


text \<open>
  The children of a loop run once for each element, in order: before each run the index
  variable holds the position of the element and the item variable the element.
\<close>

fun each_elements ::
  "nat \<Rightarrow> string \<Rightarrow> stmt list \<Rightarrow> jsvalue list \<Rightarrow> nat \<Rightarrow> state \<Rightarrow> state result" where
  "each_elements fuel loopId body [] i st = Ok st"
| "each_elements fuel loopId body (v # vs) i st =
     bind (exec_list fuel body
             (assign (''item_'' @ loopId) v (assign (''index_'' @ loopId) (JNum (int i)) st)))
       (\<lambda>st'. each_elements fuel loopId body vs (Suc i) st')"

lemma fresh_loop_vars:
  assumes "loopId \<notin> set (loop_ids_list body)"
  shows "\<forall>d \<in> set (loop_ids_list body). ''index_'' @ loopId \<notin> loop_vars d"
    and "\<forall>d \<in> set (loop_ids_list body). ''items_'' @ loopId \<notin> loop_vars d"
  using assms by (auto simp: loop_vars_def)

lemma loop_unroll:
  assumes "loopId \<notin> set (loop_ids_list body)"
    and "env st (''items_'' @ loopId) = Some (JArr all)"
    and "vs = drop i all" and "i \<le> length all"
    and "each_elements fuel loopId body vs i st = Ok st2"
  shows "for_loop (fuel + length vs + 1) loopId body (assign (''index_'' @ loopId) (JNum (int i)) st)
           = Ok (assign (''index_'' @ loopId) (JNum (int (length all))) st2)"
  using assms(2-)
proof (induction vs arbitrary: i st)
  case Nil
  then have "i = length all" by simp
  with Nil show ?case by (simp add: assign_def)
next
  case (Cons v vs)
  let ?st0 = "assign (''index_'' @ loopId) (JNum (int i)) st"
  from Cons.prems(2) have lt: "i < length all"
    by (metis drop_all leI list.distinct(1))
  with Cons.prems(2) have v: "all ! i = v" and vs: "vs = drop (Suc i) all"
    by (metis Cons_nth_drop_Suc list.inject)+
  from Cons.prems(4) obtain st1 where
    b: "exec_list fuel body (assign (''item_'' @ loopId) v ?st0) = Ok st1" and
    r: "each_elements fuel loopId body vs (Suc i) st1 = Ok st2"
    by (auto dest!: bind_Ok)
  from fuel_mono[OF b, of "length vs + 1"]
  have b': "exec_list (fuel + length vs + 1) body (assign (''item_'' @ loopId) v ?st0) = Ok st1"
    by (simp add: add.assoc)
  from frame(2)[OF b fresh_loop_vars(1)[OF assms(1)]]
  have i1: "env st1 (''index_'' @ loopId) = Some (JNum (int i))" by (simp add: assign_def)
  from frame(2)[OF b fresh_loop_vars(2)[OF assms(1)]] Cons.prems(1)
  have a1: "env st1 (''items_'' @ loopId) = Some (JArr all)" by (simp add: assign_def)
  from lt have "Suc i \<le> length all" by simp
  from Cons.IH[OF a1 vs this r]
  have ih: "for_loop (fuel + length vs + 1) loopId body
      (assign (''index_'' @ loopId) (JNum (int (Suc i))) st1)
        = Ok (assign (''index_'' @ loopId) (JNum (int (length all))) st2)" .
  have e0: "env ?st0 (''index_'' @ loopId) = Some (JNum (int i))"
    "env ?st0 (''items_'' @ loopId) = Some (JArr all)"
    using Cons.prems(1) by (simp_all add: assign_def)
  have "for_loop (Suc (fuel + length vs + 1)) loopId body ?st0
        = Ok (assign (''index_'' @ loopId) (JNum (int (length all))) st2)"
    using e0 lt v b' i1 ih by (simp add: add.commute)
  then show ?case by simp
qed


lemma parse_identifier:
  assumes "is_identifier b" and "b \<notin> set reserved_words"
  shows "parse_expression b = Some (Member b [])"
proof -
  have d: "CHR ''.'' \<notin> set b"
    using is_identifier_chars[OF assms(1)]
    by (auto simp: is_id_part_def is_id_start_def is_digit_def)
  then have sp: "split CHR ''.'' b = [b]" by (rule split_no_separator)
  with assms(1) have v: "isValidPath b" by (simp add: isValidPath_def)
  from isValidPath_not_literal[OF v] v sp assms(2) show ?thesis
    by (simp add: parse_expression_def)
qed

lemma loop_variable_identifier:
  assumes "list_all is_id_part d"
  shows "is_identifier (''index_'' @ d)" and "''index_'' @ d \<notin> set reserved_words"
    and "is_identifier (''item_'' @ d)" and "''item_'' @ d \<notin> set reserved_words"
  using assms
  by (simp_all add: is_identifier_def is_id_start_def is_id_part_def is_digit_def reserved_words_def)

lemma index_substitution:
  assumes "list_all is_id_part d"
  shows "generateAccessCode ''@index'' (Some (LoopContext item (''index_'' @ d) p))
           = Inr (Source (''index_'' @ d))"
proof -
  let ?x = "''index_'' @ d"
  note id = loop_variable_identifier(1,2)[OF assms]
  have c: "isComplexExpression ''@index''" by code_simp
  have i: "str_includes ''@index'' ''@index''" by code_simp
  have r: "replace_index ?x ''@index'' = ?x" by (simp add: starts_with_def)
  have "CHR ''='' \<notin> set ?x"
    using is_identifier_chars[OF id(1)]
    by (auto simp: is_id_part_def is_id_start_def is_digit_def)
  then have a: "\<not> str_includes ''=>'' ?x" by (intro str_includes_absent) auto
  have t: "?x \<noteq> ''this''" "\<not> starts_with ''this.'' ?x" by (simp_all add: starts_with_def)
  have "compileComplexExpression ''@index'' (Some (LoopContext item ?x p)) = Inr ?x"
    using i r a t parse_identifier[OF id]
    by (simp add: compileComplexExpression_def Let_def)
  with c show ?thesis by (simp add: generateAccessCode_def starts_with_def)
qed

text \<open>
  C2. For an each block whose items expression evaluates to an array, the generated
  statement evaluates the expression once and runs the translated children once for each
  element, in order, with the index variable at the element's position (from 0) and the
  item variable at the element; given fuel for the children it ends with the state that
  these runs give, the index variable at the length of the array. The children are
  translated in the loop's context, where \<^verbatim>\<open>@index\<close> becomes the name of the loop's
  index variable and \<^verbatim>\<open>this\<close> the name of its item variable; with no loop around
  it \<^verbatim>\<open>@index\<close> becomes \<^verbatim>\<open>0\<close>. The identifier drawn for the loop is taken to be made
  of identifier characters and not drawn again for a loop inside it (the names are unique,
  as the compiler intends).
\<close>

theorem each_over_array:
  assumes "generateAccessCode items loopContext = Inr itemsCode"
    and "generateChildren rnd children
           (Some (LoopContext (''item_'' @ rnd n) (''index_'' @ rnd n) loopContext)) (Suc n)
         = Inr (body, n')"
    and "list_all is_id_part (rnd n)"
    and "rnd n \<notin> set (loop_ids_list body)"
    and "eval_code (env st) itemsCode = Ok (JArr vs)"
    and "each_elements fuel (rnd n) body vs 0 (assign (''items_'' @ rnd n) (JArr vs) st) = Ok st'"
  shows "generateNodeCode rnd (EachN items children) loopContext n
           = Inr (EachS (rnd n) itemsCode body, n') \<and>
    exec (fuel + length vs + 1) (EachS (rnd n) itemsCode body) st
      = Ok (assign (''index_'' @ rnd n) (JNum (int (length vs))) st') \<and>
    generateAccessCode ''@index''
        (Some (LoopContext (''item_'' @ rnd n) (''index_'' @ rnd n) loopContext))
      = Inr (Source (''index_'' @ rnd n)) \<and>
    generateAccessCode ''this''
        (Some (LoopContext (''item_'' @ rnd n) (''index_'' @ rnd n) loopContext))
      = Inr (Source (''item_'' @ rnd n)) \<and>
    generateAccessCode ''@index'' None = Inr (Source ''0'')"
proof -
  let ?st0 = "assign (''items_'' @ rnd n) (JArr vs) st"
  have g: "generateNodeCode rnd (EachN items children) loopContext n
           = Inr (EachS (rnd n) itemsCode body, n')"
    using assms(1,2) by simp
  have "env ?st0 (''items_'' @ rnd n) = Some (JArr vs)" by (simp add: assign_def)
  from loop_unroll[OF assms(4) this _ _ assms(6)]
  have "for_loop (fuel + length vs + 1) (rnd n) body (assign (''index_'' @ rnd n) (JNum (int 0)) ?st0)
      = Ok (assign (''index_'' @ rnd n) (JNum (int (length vs))) st')" by simp
  with assms(5) have e: "exec (fuel + length vs + 1) (EachS (rnd n) itemsCode body) st
      = Ok (assign (''index_'' @ rnd n) (JNum (int (length vs))) st')" by simp
  have t: "generateAccessCode ''this''
        (Some (LoopContext (''item_'' @ rnd n) (''index_'' @ rnd n) loopContext))
      = Inr (Source (''item_'' @ rnd n))" by (simp add: generateAccessCode_def)
  have z: "generateAccessCode ''@index'' None = Inr (Source ''0'')" by code_simp
  from g e index_substitution[OF assms(3)] t z show ?thesis by blast
qed

theorem each_over_array_witness:
  "generateAccessCode ''items'' None = Inr (Get_ctx ''items'') \<and>
   generateChildren (\<lambda>k. ''k3j2h1abc'')
      [VariableN ''@index'', TextN '':'', VariableN ''this'', TextN '' '']
      (Some (LoopContext (''item_'' @ ''k3j2h1abc'') (''index_'' @ ''k3j2h1abc'') None)) (Suc 0)
     = Inr ([PushEscape (Source ''index_k3j2h1abc''), PushText '':'',
             PushEscape (Source ''item_k3j2h1abc''), PushText '' ''], Suc 0) \<and>
   list_all is_id_part ''k3j2h1abc'' \<and>
   ''k3j2h1abc'' \<notin> set (loop_ids_list [PushEscape (Source ''index_k3j2h1abc''), PushText '':'',
             PushEscape (Source ''item_k3j2h1abc''), PushText '' '']) \<and>
   eval_code (env \<lparr>env = [''ctx'' \<mapsto> JObj [(''items'', JArr [JStr ''a'', JStr ''b'', JStr ''c''])]],
                   out = []\<rparr>) (Get_ctx ''items'') = Ok (JArr [JStr ''a'', JStr ''b'', JStr ''c'']) \<and>
   (\<exists>st'. each_elements 0 ''k3j2h1abc''
            [PushEscape (Source ''index_k3j2h1abc''), PushText '':'',
             PushEscape (Source ''item_k3j2h1abc''), PushText '' '']
            [JStr ''a'', JStr ''b'', JStr ''c''] 0
            (assign (''items_'' @ ''k3j2h1abc'') (JArr [JStr ''a'', JStr ''b'', JStr ''c''])
               \<lparr>env = [''ctx'' \<mapsto> JObj [(''items'', JArr [JStr ''a'', JStr ''b'', JStr ''c''])]],
                out = []\<rparr>) = Ok st' \<and>
          concat (out st') = ''0:a 1:b 2:c '' \<and>
          exec (0 + length [JStr ''a'', JStr ''b'', JStr ''c''] + 1)
            (EachS ''k3j2h1abc'' (Get_ctx ''items'')
               [PushEscape (Source ''index_k3j2h1abc''), PushText '':'',
                PushEscape (Source ''item_k3j2h1abc''), PushText '' ''])
            \<lparr>env = [''ctx'' \<mapsto> JObj [(''items'', JArr [JStr ''a'', JStr ''b'', JStr ''c''])]],
             out = []\<rparr>
            = Ok (assign (''index_'' @ ''k3j2h1abc'')
                    (JNum (int (length [JStr ''a'', JStr ''b'', JStr ''c'']))) st')) \<and>
   render (\<lambda>k. ''k3j2h1abc'') 4 ''{{#each items}}{{@index}}:{{this}} {{/each}}''
      (JObj [(''items'', JArr [JStr ''a'', JStr ''b'', JStr ''c''])]) = Inr (Ok ''0:a 1:b 2:c '') \<and>
   render (\<lambda>k. ''k3j2h1abc'') 0 ''{{@index}}'' (JObj []) = Inr (Ok ''0'')"
proof -
  let ?body = "[PushEscape (Source ''index_k3j2h1abc''), PushText '':'',
             PushEscape (Source ''item_k3j2h1abc''), PushText '' '']"
  let ?vs = "[JStr ''a'', JStr ''b'', JStr ''c'']"
  let ?st = "\<lparr>env = [''ctx'' \<mapsto> JObj [(''items'', JArr ?vs)]], out = []\<rparr>"
  have h1: "generateAccessCode ''items'' None = Inr (Get_ctx ''items'')" by code_simp
  have h2: "generateChildren (\<lambda>k. ''k3j2h1abc'')
      [VariableN ''@index'', TextN '':'', VariableN ''this'', TextN '' '']
      (Some (LoopContext (''item_'' @ ''k3j2h1abc'') (''index_'' @ ''k3j2h1abc'') None)) (Suc 0)
     = Inr (?body, Suc 0)" by code_simp
  have h3: "list_all is_id_part ''k3j2h1abc''" by code_simp
  have h4: "''k3j2h1abc'' \<notin> set (loop_ids_list ?body)" by simp
  have h5: "eval_code (env ?st) (Get_ctx ''items'') = Ok (JArr ?vs)" by code_simp
  have "bind (each_elements 0 ''k3j2h1abc'' ?body ?vs 0
            (assign (''items_'' @ ''k3j2h1abc'') (JArr ?vs) ?st)) (\<lambda>s. Ok (concat (out s)))
        = Ok ''0:a 1:b 2:c ''" by code_simp
  then obtain st' where
    e: "each_elements 0 ''k3j2h1abc'' ?body ?vs 0
            (assign (''items_'' @ ''k3j2h1abc'') (JArr ?vs) ?st) = Ok st'" and
    o: "concat (out st') = ''0:a 1:b 2:c ''"
    by (auto dest!: bind_Ok)
  have r: "render (\<lambda>k. ''k3j2h1abc'') 4 ''{{#each items}}{{@index}}:{{this}} {{/each}}''
      (JObj [(''items'', JArr ?vs)]) = Inr (Ok ''0:a 1:b 2:c '')"
    "render (\<lambda>k. ''k3j2h1abc'') 0 ''{{@index}}'' (JObj []) = Inr (Ok ''0'')"
    by code_simp+
  from each_over_array[of "''items''" None "Get_ctx ''items''" "\<lambda>k. ''k3j2h1abc''" _ 0 ?body "Suc 0"
      ?st ?vs 0 st', OF h1 h2 h3 h4 h5 e]
  have x: "exec (0 + length ?vs + 1) (EachS ''k3j2h1abc'' (Get_ctx ''items'') ?body) ?st
      = Ok (assign (''index_'' @ ''k3j2h1abc'') (JNum (int (length ?vs))) st')" by blast
  from e o x have "\<exists>st'. each_elements 0 ''k3j2h1abc'' ?body ?vs 0
            (assign (''items_'' @ ''k3j2h1abc'') (JArr ?vs) ?st) = Ok st' \<and>
          concat (out st') = ''0:a 1:b 2:c '' \<and>
          exec (0 + length ?vs + 1) (EachS ''k3j2h1abc'' (Get_ctx ''items'') ?body) ?st
            = Ok (assign (''index_'' @ ''k3j2h1abc'') (JNum (int (length ?vs))) st')" by blast
  with h1 h2 h3 h4 h5 r show ?thesis by blast
qed

section \<open>Properties of the compiled artifact\<close>

text \<open>
  C5. A raw variable should print nothing for a value that is \<^verbatim>\<open>null\<close> or missing, as
  an escaped variable does. The generated statement is \<^verbatim>\<open>output.push(String(...))\<close>,
  with no test for \<^verbatim>\<open>null\<close>: a missing value is printed as \<^verbatim>\<open>undefined\<close>.
\<close>

theorem raw_missing_prints_undefined:
  "render rnd fuel ''{{{html}}}'' (JObj []) = Inr (Ok ''undefined'')"
  by code_simp

text \<open>
  C9. Two compilations of one template should give artifacts with the same output. The
  compiler replaces every \<^verbatim>\<open>@index\<close> in the text of an expression by the name of the
  loop's index variable, also inside a string literal, and the name is drawn at random:
  the output shows it.
\<close>

theorem loop_name_in_output:
  "render (\<lambda>k. ''k3j2h1abc'') 2 ''{{#each items}}{{'@index'}}{{/each}}''
      (JObj [(''items'', JArr [JNum 1])]) = Inr (Ok ''index_k3j2h1abc'') \<and>
   render (\<lambda>k. ''z9y8x7wvu'') 2 ''{{#each items}}{{'@index'}}{{/each}}''
      (JObj [(''items'', JArr [JNum 1])]) = Inr (Ok ''index_z9y8x7wvu'')"
  by code_simp

end
